theory Spec2Isabelle
  imports Main "HOL-Library.Multiset"
begin

section \<open>Data model\<close>

text \<open>
  The repository holds two rulesets of the same game. \<^verbatim>\<open>src/App.tsx\<close> (and its older
  copy, which has neither the pause nor the touch buttons) is the simpler one: a single
  next piece, no hold, no ghost. The other file is the richer one: a shuffled bag, a queue
  of three next pieces, hold, ghost and tiered scoring.
  Where both define a function of the same name, the richer ruleset's definition keeps the
  name and the simpler ruleset's definition carries the suffix \<open>_solo\<close>.

  Numbers of the source are binary64 floating-point numbers. Every number a game computes
  is a small integer, which binary64 holds exactly, so the sessions compute with the
  integers. Two functions are specified for every number they can be given, the score for
  every level and \<^verbatim>\<open>merge\<close> for every piece: their sums and products are rounded as
  binary64 rounds them (\<open>round64\<close> below).
\<close>

definition ROWS :: nat where "ROWS = 20"
definition COLS :: nat where "COLS = 10"

type_synonym shape = "int list list"
type_synonym board = "int list list"

record piece =
  shape :: shape
  x :: int
  y :: int
  colorIdx :: int

text \<open>
  \<open>TypeError\<close> is the exception JavaScript raises when a property of \<^verbatim>\<open>undefined\<close> is read
  or written (\<^verbatim>\<open>g[r][c]\<close> where \<^verbatim>\<open>g[r]\<close> does not exist, \<^verbatim>\<open>m[0].length\<close> of an empty
  matrix). \<open>Undefined_value\<close> is no exception of the source: a read past the end of a row
  yields \<^verbatim>\<open>undefined\<close>, and a write outside a row grows the row or sets a non-index
  property. \<open>merge\<close> is modelled with arrays that do so. The sessions and \<^verbatim>\<open>rotate\<close> keep
  their matrices as lists of lists of numbers, which cannot hold such a result: there the
  model stops and says so.
\<close>

datatype error = TypeError | Undefined_value

definition emptyGrid :: board where
  "emptyGrid = replicate ROWS (replicate COLS 0)"

definition SHAPES :: "shape list" where
  "SHAPES =
    [ [[1,1],[1,1]],
      [[1,1,1,1]],
      [[0,1,0],[1,1,1]],
      [[0,1,1],[1,1,0]],
      [[1,1,0],[0,1,1]],
      [[1,0,0],[1,1,1]],
      [[0,0,1],[1,1,1]] ]"

text \<open>A board as the game keeps it: \<open>ROWS\<close> rows of \<open>COLS\<close> cells each.\<close>

definition wf_board :: "board \<Rightarrow> bool" where
  "wf_board g \<longleftrightarrow> length g = ROWS \<and> (\<forall>row \<in> set g. length row = COLS)"

text \<open>The cell \<open>(dy, dx)\<close> of the piece's shape exists and is truthy.\<close>

definition occupied :: "piece \<Rightarrow> nat \<Rightarrow> nat \<Rightarrow> bool" where
  "occupied p dy dx \<longleftrightarrow>
     dy < length (shape p) \<and> dx < length (shape p ! dy) \<and> shape p ! dy ! dx \<noteq> 0"

section \<open>Binary64 arithmetic on integers\<close>

text \<open>The number of binary digits of a positive integer.\<close>

function bit_length :: "int \<Rightarrow> nat" where
  "bit_length n = (if n \<le> 0 then 0 else Suc (bit_length (n div 2)))"
  by pat_completeness auto
termination
  by (relation "measure nat") auto

declare bit_length.simps [simp del]

text \<open>
  The binary64 number nearest to the integer \<open>n\<close>, a tie going to the even significand:
  up to \<open>2 ^ 53\<close> every integer is a binary64 number; a larger one keeps its leading 53
  binary digits \<open>q\<close> and is rounded on the \<open>e\<close> digits \<open>r\<close> that follow. Beyond the largest
  binary64 number (just below \<open>2 ^ 1024\<close>) the source has \<^verbatim>\<open>Infinity\<close>, which is no integer.
  The sum of a binary64 number and an index of an array never gets there, and the score
  is stated for levels far below.
\<close>

definition round64 :: "int \<Rightarrow> int" where
  "round64 n =
     (if \<bar>n\<bar> < 2 ^ 53 then n
      else
        let e = bit_length \<bar>n\<bar> - 53;
            q = \<bar>n\<bar> div 2 ^ e;
            r = \<bar>n\<bar> mod 2 ^ e;
            q' = (if 2 ^ e < 2 * r \<or> (2 * r = 2 ^ e \<and> odd q) then q + 1 else q)
        in sgn n * (q' * 2 ^ e))"

text \<open>\<^verbatim>\<open>a + b\<close> and \<^verbatim>\<open>a * b\<close> of the source, on integers.\<close>

definition js_add :: "int \<Rightarrow> int \<Rightarrow> int" where
  "js_add a b = round64 (a + b)"

definition js_times :: "int \<Rightarrow> int \<Rightarrow> int" where
  "js_times a b = round64 (a * b)"

section \<open>Collision detection\<close>

text \<open>
  \<^verbatim>\<open>xs.some((v, i) => f(v, i))\<close>: the elements in order with their index, stopping at the
  first truthy answer; an exception raised by the callback ends the scan.
\<close>

fun some_from :: "nat \<Rightarrow> (nat \<Rightarrow> 'a \<Rightarrow> error + bool) \<Rightarrow> 'a list \<Rightarrow> error + bool" where
  "some_from i f [] = Inr False"
| "some_from i f (v # vs) =
     (case f i v of
        Inl e \<Rightarrow> Inl e
      | Inr True \<Rightarrow> Inr True
      | Inr False \<Rightarrow> some_from (Suc i) f vs)"

text \<open>
  The truthiness of \<^verbatim>\<open>grid[newY][newX]\<close>: a missing row raises, a missing cell of an
  existing row is \<^verbatim>\<open>undefined\<close>, which is falsy.
\<close>

definition grid_truthy :: "board \<Rightarrow> int \<Rightarrow> int \<Rightarrow> error + bool" where
  "grid_truthy grid newY newX =
     (if newY < 0 \<or> length grid \<le> nat newY then Inl TypeError
      else if newX < 0 \<or> length (grid ! nat newY) \<le> nat newX then Inr False
      else Inr (grid ! nat newY ! nat newX \<noteq> 0))"

text \<open>\<^verbatim>\<open>collides\<close> of the richer ruleset.\<close>

definition collides :: "board \<Rightarrow> piece \<Rightarrow> error + bool" where
  "collides grid p =
     some_from 0 (\<lambda>dy row.
       some_from 0 (\<lambda>dx cell.
         if cell = 0 then Inr False
         else
           let newX = x p + int dx; newY = y p + int dy in
           if newX < 0 \<or> newX \<ge> int COLS \<or> newY \<ge> int ROWS then Inr True
           else if newY \<ge> 0 then grid_truthy grid newY newX
           else Inr False) row) (shape p)"

text \<open>\<^verbatim>\<open>collides\<close> of the simpler ruleset: the same tests in another order.\<close>

definition collides_solo :: "board \<Rightarrow> piece \<Rightarrow> error + bool" where
  "collides_solo g p =
     some_from 0 (\<lambda>dy row.
       some_from 0 (\<lambda>dx v.
         if v = 0 then Inr False
         else if y p + int dy \<ge> int ROWS \<or> x p + int dx < 0 \<or> x p + int dx \<ge> int COLS
           then Inr True
         else if y p + int dy \<ge> 0 then grid_truthy g (y p + int dy) (x p + int dx)
         else Inr False) row) (shape p)"

text \<open>
  What a collision is, said once: some occupied cell of the piece is outside the columns,
  at or below the floor, or on a truthy cell of a row the board has.
\<close>

definition hits :: "board \<Rightarrow> piece \<Rightarrow> bool" where
  "hits g p \<longleftrightarrow>
     (\<exists>dy dx. occupied p dy dx \<and>
        (x p + int dx < 0 \<or> x p + int dx \<ge> int COLS \<or> y p + int dy \<ge> int ROWS \<or>
         (0 \<le> y p + int dy \<and>
          nat (x p + int dx) < length (g ! nat (y p + int dy)) \<and>
          g ! nat (y p + int dy) ! nat (x p + int dx) \<noteq> 0)))"

text \<open>
  Building a piece from a type index, as \<^verbatim>\<open>randomPiece\<close> and \<^verbatim>\<open>PieceBag.next\<close> both do
  once they have drawn the index: the shape is looked up in \<^verbatim>\<open>SHAPES\<close> (an index outside
  the table gives \<^verbatim>\<open>undefined\<close>, whose \<^verbatim>\<open>[0]\<close> raises), the piece is centred and put on
  row 0.
\<close>

definition spawn :: "int \<Rightarrow> error + piece" where
  "spawn c =
     (if c < 0 \<or> length SHAPES \<le> nat c then Inl TypeError
      else
        (case SHAPES ! nat c of
           [] \<Rightarrow> Inl TypeError
         | r0 # _ \<Rightarrow>
             Inr \<lparr>shape = SHAPES ! nat c,
                  x = (int COLS - int (length r0)) div 2, y = 0, colorIdx = c\<rparr>))"

text \<open>The O piece where it spawns: \<open>spawn 0\<close> returns it (lemma \<open>spawn_O\<close>).\<close>

definition O_spawn :: piece where
  "O_spawn = \<lparr>shape = [[1,1],[1,1]], x = 4, y = 0, colorIdx = 0\<rparr>"

section \<open>Merging a piece into the board\<close>

text \<open>
  \<^verbatim>\<open>xs.forEach((v, i) => ...)\<close> where the callback updates a state: the elements in order
  with their index; an exception ends the loop.
\<close>

fun forEach_from :: "nat \<Rightarrow> (nat \<Rightarrow> 'a \<Rightarrow> 's \<Rightarrow> error + 's) \<Rightarrow> 'a list \<Rightarrow> 's \<Rightarrow> error + 's" where
  "forEach_from i f [] s = Inr s"
| "forEach_from i f (v # vs) s =
     (case f i v s of
        Inl e \<Rightarrow> Inl e
      | Inr s' \<Rightarrow> forEach_from (Suc i) f vs s')"

text \<open>
  A JavaScript array of numbers, as far as \<^verbatim>\<open>merge\<close> can tell: its \<^verbatim>\<open>length\<close> and, for every
  integer key, what reading the key yields, a number or \<^verbatim>\<open>undefined\<close> (\<open>None\<close>). The keys
  from 0 to \<open>2 ^ 32 - 2\<close> are the indices of the array; any other key is an ordinary
  property.
\<close>

record js_array =
  len :: nat
  slot :: "int \<Rightarrow> int option"

text \<open>The array that holds the cells of a row of a board, and nothing else.\<close>

definition array_of :: "int list \<Rightarrow> js_array" where
  "array_of xs =
     \<lparr>len = length xs,
      slot = (\<lambda>c. if 0 \<le> c \<and> nat c < length xs then Some (xs ! nat c) else None)\<rparr>"

text \<open>
  \<^verbatim>\<open>arr[c] = v\<close>: the key holds \<open>v\<close> afterwards. Under an index at or past the length the
  array grows to reach it (the indices in between hold nothing); under any other key the
  length stays.
\<close>

definition put :: "js_array \<Rightarrow> int \<Rightarrow> int \<Rightarrow> js_array" where
  "put arr c v =
     \<lparr>len = (if 0 \<le> c \<and> c < 4294967295 \<and> len arr \<le> nat c then Suc (nat c) else len arr),
      slot = (slot arr)(c := Some v)\<rparr>"

text \<open>
  \<^verbatim>\<open>[...arr]\<close>: a new array of the same length with what the indices below the length
  yield; properties that are no index are not copied.
\<close>

definition spread :: "js_array \<Rightarrow> js_array" where
  "spread arr =
     \<lparr>len = len arr,
      slot = (\<lambda>c. if 0 \<le> c \<and> nat c < len arr then slot arr c else None)\<rparr>"

text \<open>
  Whether \<^verbatim>\<open>merge\<close> changes the board it is given is a question about arrays that are
  shared, so the rows live on a heap: a row is an address, a board the list of the
  addresses of its rows. (The outer array is never written by \<^verbatim>\<open>merge\<close>, and \<^verbatim>\<open>map\<close> builds
  a new one, so it stays a value.) Addresses from \<open>next_free\<close> on are unused.
\<close>

type_synonym addr = nat

record heap =
  arrays :: "addr \<Rightarrow> js_array option"
  next_free :: addr

definition new_array :: "js_array \<Rightarrow> heap \<Rightarrow> addr \<times> heap" where
  "new_array arr h =
     (next_free h, h\<lparr>arrays := (arrays h)(next_free h := Some arr), next_free := Suc (next_free h)\<rparr>)"

text \<open>\<^verbatim>\<open>g.map(r => [...r])\<close>: a new array for every row, with the row's cells.\<close>

fun copy_rows :: "addr list \<Rightarrow> heap \<Rightarrow> error + addr list \<times> heap" where
  "copy_rows [] h = Inr ([], h)"
| "copy_rows (r # rs) h =
     (case arrays h r of
        None \<Rightarrow> Inl TypeError
      | Some arr \<Rightarrow>
          (case new_array (spread arr) h of
             (a, h1) \<Rightarrow>
               (case copy_rows rs h1 of
                  Inl e \<Rightarrow> Inl e
                | Inr (as, h2) \<Rightarrow> Inr (a # as, h2))))"

text \<open>
  \<^verbatim>\<open>ng[r][c] = v\<close>: where \<^verbatim>\<open>ng\<close> has no row \<open>r\<close>, \<^verbatim>\<open>ng[r]\<close> is \<^verbatim>\<open>undefined\<close> and the write
  raises; a row that exists takes the write under any key.
\<close>

definition set_cell_at :: "addr list \<Rightarrow> int \<Rightarrow> int \<Rightarrow> int \<Rightarrow> heap \<Rightarrow> error + heap" where
  "set_cell_at ng r c v h =
     (if r < 0 \<or> length ng \<le> nat r then Inl TypeError
      else
        (case arrays h (ng ! nat r) of
           None \<Rightarrow> Inl TypeError
         | Some arr \<Rightarrow> Inr (h\<lparr>arrays := (arrays h)(ng ! nat r := Some (put arr c v))\<rparr>)))"

text \<open>
  \<^verbatim>\<open>merge\<close> of the simpler ruleset, and the same code inlined at the head of \<^verbatim>\<open>lockPiece\<close>
  in the richer one: the copy, then the two loops over the shape, writing into the copy.
\<close>

definition merge :: "addr list \<Rightarrow> piece \<Rightarrow> heap \<Rightarrow> error + addr list \<times> heap" where
  "merge g p h =
     (case copy_rows g h of
        Inl e \<Rightarrow> Inl e
      | Inr (ng, h1) \<Rightarrow>
          (case forEach_from 0 (\<lambda>dy row h.
                  forEach_from 0 (\<lambda>dx v h.
                    if v \<noteq> 0 \<and> js_add (y p) (int dy) \<ge> 0
                    then set_cell_at ng (js_add (y p) (int dy)) (js_add (x p) (int dx))
                           (js_add (colorIdx p) 1) h
                    else Inr h) row h) (shape p) h1 of
             Inl e \<Rightarrow> Inl e
           | Inr h2 \<Rightarrow> Inr (ng, h2)))"

text \<open>On the heap \<open>h\<close> the rows \<open>g\<close> hold the board \<open>b\<close>.\<close>

definition board_at :: "heap \<Rightarrow> addr list \<Rightarrow> board \<Rightarrow> bool" where
  "board_at h g b \<longleftrightarrow>
     length g = length b \<and> (\<forall>i < length g. arrays h (g ! i) = Some (array_of (b ! i)))"

text \<open>Every occupied cell of the piece with a row \<open>\<ge> 0\<close> is on a row the board has.\<close>

definition on_rows :: "board \<Rightarrow> piece \<Rightarrow> bool" where
  "on_rows g p \<longleftrightarrow>
     (\<forall>dy dx. occupied p dy dx \<and> 0 \<le> js_add (y p) (int dy) \<longrightarrow>
        js_add (y p) (int dy) < int (length g))"

text \<open>
  The key \<open>c\<close> of row \<open>r\<close> is where \<^verbatim>\<open>merge\<close> writes an occupied cell of the piece.
\<close>

definition covers :: "piece \<Rightarrow> nat \<Rightarrow> int \<Rightarrow> bool" where
  "covers p r c \<longleftrightarrow>
     (\<exists>dy dx. occupied p dy dx \<and> js_add (y p) (int dy) = int r \<and> js_add (x p) (int dx) = c)"

text \<open>
  Bookkeeping for the loops of \<open>merge\<close>: on the heap \<open>h\<close> the copy \<open>ng\<close> holds the board \<open>b\<close>
  with the keys of \<open>S\<close> set to \<open>v\<close>, every row as long as its largest index asks for, and
  outside the copy \<open>h\<close> is the heap \<open>h1\<close> the loops started from; \<open>rowkeys\<close> and \<open>cellkeys\<close>
  are the keys written so far.
\<close>

definition written :: "(nat \<times> int) set \<Rightarrow> board \<Rightarrow> int \<Rightarrow> addr list \<Rightarrow> heap \<Rightarrow> heap \<Rightarrow> bool" where
  "written S b v ng h1 h \<longleftrightarrow>
     (\<forall>r < length ng. \<exists>arr. arrays h (ng ! r) = Some arr \<and>
        (\<forall>c. slot arr c = (if (r, c) \<in> S then Some v else slot (array_of (b ! r)) c)) \<and>
        length (b ! r) \<le> len arr \<and>
        (\<forall>c. (r, c) \<in> S \<and> 0 \<le> c \<and> c < 4294967295 \<longrightarrow> nat c < len arr) \<and>
        (len arr = length (b ! r) \<or>
         (\<exists>c. (r, c) \<in> S \<and> 0 \<le> c \<and> c < 4294967295 \<and> len arr = Suc (nat c)))) \<and>
     (\<forall>a. a \<notin> set ng \<longrightarrow> arrays h a = arrays h1 a)"

definition rowkeys :: "piece \<Rightarrow> nat \<Rightarrow> nat \<Rightarrow> (nat \<times> int) set" where
  "rowkeys p dy k =
     {(nat (js_add (y p) (int dy)), js_add (x p) (int dx)) | dx.
        dx < k \<and> occupied p dy dx \<and> 0 \<le> js_add (y p) (int dy)}"

definition cellkeys :: "piece \<Rightarrow> nat \<Rightarrow> (nat \<times> int) set" where
  "cellkeys p k = (\<Union>dy \<in> {..<k}. rowkeys p dy (length (shape p ! dy)))"

section \<open>The merged board as a value\<close>

text \<open>
  The sessions keep their grid as a value, a matrix of numbers. \<^verbatim>\<open>ng[r][c] = v\<close> on such a
  matrix: writing into a row that does not exist raises; a column outside the row leaves
  the matrices of numbers (see \<open>Undefined_value\<close>). \<^verbatim>\<open>rotate\<close> writes with it as well, always
  inside the row.
\<close>

definition set_cell :: "board \<Rightarrow> int \<Rightarrow> int \<Rightarrow> int \<Rightarrow> error + board" where
  "set_cell ng r c v =
     (if r < 0 \<or> length ng \<le> nat r then Inl TypeError
      else if c < 0 \<or> length (ng ! nat r) \<le> nat c then Inl Undefined_value
      else Inr (ng[nat r := (ng ! nat r)[nat c := v]]))"

text \<open>
  The loops of \<^verbatim>\<open>merge\<close> on a grid that is a value, with the integers' sums: what the gravity
  tick of the simpler ruleset and \<^verbatim>\<open>lockPiece\<close> of the richer one do with the grid of the
  session. Where the piece lies on the board this is the board that \<open>merge\<close> returns
  (lemma \<open>merge_board_agrees\<close>), and a piece that does not collide with the board lies
  on it (lemma \<open>not_colliding_fits\<close>).
\<close>

definition merge_board :: "board \<Rightarrow> piece \<Rightarrow> error + board" where
  "merge_board g p =
     forEach_from 0 (\<lambda>dy row ng.
       forEach_from 0 (\<lambda>dx v ng.
         if v \<noteq> 0 \<and> y p + int dy \<ge> 0
         then set_cell ng (y p + int dy) (x p + int dx) (colorIdx p + 1)
         else Inr ng) row ng) (shape p) g"

text \<open>Every occupied cell of the piece with a row \<open>\<ge> 0\<close> lies on a cell the board has.\<close>

definition fits :: "board \<Rightarrow> piece \<Rightarrow> bool" where
  "fits g p \<longleftrightarrow>
     (\<forall>dy dx. occupied p dy dx \<and> 0 \<le> y p + int dy \<longrightarrow>
        nat (y p + int dy) < length g \<and> 0 \<le> x p + int dx \<and>
        nat (x p + int dx) < length (g ! nat (y p + int dy)))"

text \<open>The board cell \<open>(r, c)\<close> is under an occupied cell of the piece.\<close>

definition covered :: "piece \<Rightarrow> nat \<Rightarrow> nat \<Rightarrow> bool" where
  "covered p r c \<longleftrightarrow>
     (\<exists>dy dx. occupied p dy dx \<and> y p + int dy = int r \<and> x p + int dx = int c)"

text \<open>
  Bookkeeping for the loops of \<open>merge_board\<close>: \<open>ng\<close> is \<open>g\<close> with the cells of \<open>S\<close> set to \<open>v\<close>;
  \<open>rowset\<close> and \<open>cellset\<close> are the cells written so far.
\<close>

definition painted :: "(nat \<times> nat) set \<Rightarrow> board \<Rightarrow> int \<Rightarrow> board \<Rightarrow> bool" where
  "painted S g v ng \<longleftrightarrow>
     length ng = length g \<and>
     (\<forall>r < length g. length (ng ! r) = length (g ! r) \<and>
        (\<forall>c < length (g ! r). ng ! r ! c = (if (r, c) \<in> S then v else g ! r ! c)))"

definition rowset :: "piece \<Rightarrow> nat \<Rightarrow> nat \<Rightarrow> (nat \<times> nat) set" where
  "rowset p dy k =
     {(nat (y p + int dy), nat (x p + int dx)) | dx. dx < k \<and> occupied p dy dx \<and> 0 \<le> y p + int dy}"

definition cellset :: "piece \<Rightarrow> nat \<Rightarrow> (nat \<times> nat) set" where
  "cellset p k = (\<Union>dy \<in> {..<k}. rowset p dy (length (shape p ! dy)))"

section \<open>Clearing lines\<close>

text \<open>
  The loop \<^verbatim>\<open>while (kept.length < ROWS) kept.unshift(Array(COLS).fill(0))\<close>: it puts an
  empty row in front until the board has \<open>ROWS\<close> rows.
\<close>

function unshift_empty :: "board \<Rightarrow> board" where
  "unshift_empty kept =
     (if length kept < ROWS then unshift_empty (replicate COLS 0 # kept) else kept)"
  by pat_completeness auto
termination
  by (relation "measure (\<lambda>kept. ROWS - length kept)") auto

declare unshift_empty.simps [simp del]

record cleared_lines =
  newGrid :: board
  cleared :: int

text \<open>
  \<^verbatim>\<open>clearLines\<close>, the same in both rulesets: the rows with some cell \<^verbatim>\<open>=== 0\<close> are kept,
  \<^verbatim>\<open>cleared\<close> is \<open>ROWS\<close> minus their number, and the kept rows are topped up.
\<close>

definition clearLines :: "board \<Rightarrow> cleared_lines" where
  "clearLines g =
     (let kept = filter (\<lambda>row. list_ex (\<lambda>cell. cell = 0) row) g;
          cleared = int ROWS - int (length kept)
      in \<lparr>newGrid = unshift_empty kept, cleared = cleared\<rparr>)"

section \<open>Rotation\<close>

text \<open>\<^verbatim>\<open>for (let i = lo; i < n; i++) body\<close>, the body updating a state; an exception ends it.\<close>

function for_range :: "nat \<Rightarrow> nat \<Rightarrow> (nat \<Rightarrow> 's \<Rightarrow> error + 's) \<Rightarrow> 's \<Rightarrow> error + 's" where
  "for_range i n body s =
     (if i < n
      then (case body i s of Inl e \<Rightarrow> Inl e | Inr s' \<Rightarrow> for_range (Suc i) n body s')
      else Inr s)"
  by pat_completeness auto
termination
  by (relation "measure (\<lambda>(i, n, body, s). n - i)") auto

declare for_range.simps [simp del]

text \<open>
  \<^verbatim>\<open>shape[i][j]\<close> read as a number: a missing row raises, a missing cell is \<^verbatim>\<open>undefined\<close>.
\<close>

definition shape_cell :: "shape \<Rightarrow> nat \<Rightarrow> nat \<Rightarrow> error + int" where
  "shape_cell m i j =
     (if length m \<le> i then Inl TypeError
      else if length (m ! i) \<le> j then Inl Undefined_value
      else Inr (m ! i ! j))"

text \<open>
  \<^verbatim>\<open>rotate\<close> of the richer ruleset: a \<open>cols \<times> rows\<close> matrix of zeros, filled cell by cell.
  \<^verbatim>\<open>shape[0].length\<close> raises on a matrix without rows.
\<close>

definition rotate :: "shape \<Rightarrow> error + shape" where
  "rotate m =
     (case m of
        [] \<Rightarrow> Inl TypeError
      | r0 # _ \<Rightarrow>
          let rows = length m; cols = length r0 in
          for_range 0 rows (\<lambda>i rotated.
            for_range 0 cols (\<lambda>j rotated.
              case shape_cell m i j of
                Inl e \<Rightarrow> Inl e
              | Inr v \<Rightarrow> set_cell rotated (int j) (int rows - 1 - int i) v) rotated)
            (replicate cols (replicate rows 0)))"

text \<open>\<^verbatim>\<open>xs.map((v, i) => f(v, i))\<close> with a callback that may fail.\<close>

fun map_from :: "nat \<Rightarrow> (nat \<Rightarrow> 'a \<Rightarrow> error + 'b) \<Rightarrow> 'a list \<Rightarrow> error + 'b list" where
  "map_from i f [] = Inr []"
| "map_from i f (v # vs) =
     (case f i v of
        Inl e \<Rightarrow> Inl e
      | Inr w \<Rightarrow> (case map_from (Suc i) f vs of Inl e \<Rightarrow> Inl e | Inr ws \<Rightarrow> Inr (w # ws)))"

text \<open>
  \<^verbatim>\<open>rotate\<close> of the simpler ruleset:
  \<^verbatim>\<open>m[0].map((_, i) => m.map(r => r[i]).reverse())\<close>.
\<close>

definition rotate_solo :: "shape \<Rightarrow> error + shape" where
  "rotate_solo m =
     (case m of
        [] \<Rightarrow> Inl TypeError
      | r0 # _ \<Rightarrow>
          map_from 0 (\<lambda>i _.
            case map_from 0 (\<lambda>_ r. if length r \<le> i then Inl Undefined_value else Inr (r ! i)) m of
              Inl e \<Rightarrow> Inl e
            | Inr column \<Rightarrow> Inr (rev column)) r0)"

text \<open>The rotated matrix, written down: row \<open>j\<close> is column \<open>j\<close> of \<open>m\<close> read from the bottom.\<close>

definition quarter_turn :: "shape \<Rightarrow> nat \<Rightarrow> shape" where
  "quarter_turn m C =
     map (\<lambda>j. map (\<lambda>k. m ! (length m - 1 - k) ! j) [0..<length m]) [0..<C]"

text \<open>
  Bookkeeping for the loops of \<^verbatim>\<open>rotate\<close>: \<open>rot\<close> has the rotated dimensions and holds the
  cells of the rows before \<open>i\<close> and of row \<open>i\<close> before column \<open>j\<close>.
\<close>

definition turned :: "shape \<Rightarrow> nat \<Rightarrow> nat \<Rightarrow> nat \<Rightarrow> shape \<Rightarrow> bool" where
  "turned m C i j rot \<longleftrightarrow>
     length rot = C \<and> (\<forall>r \<in> set rot. length r = length m) \<and>
     (\<forall>i' j'. (i' < i \<and> j' < C) \<or> (i' = i \<and> j' < j) \<longrightarrow>
        rot ! j' ! (length m - 1 - i') = m ! i' ! j')"

section \<open>Scoring\<close>

text \<open>
  \<^verbatim>\<open>calculateScore\<close> of the richer ruleset. The level has no bound in the source, so the sum
  and the product are those of binary64.
\<close>

definition calculateScore :: "int \<Rightarrow> int \<Rightarrow> int" where
  "calculateScore lines level =
     (let baseScore =
        (if lines = 1 then 100
         else if lines = 2 then 300
         else if lines = 3 then 500
         else if lines = 4 then 800
         else 0)
      in js_times baseScore (js_add level 1))"

section \<open>The descent loop\<close>

text \<open>
  \<^verbatim>\<open>while (!collides(grid, {...q, y: q.y + 1})) { q.y++; dropDistance++; }\<close>
  The loop stands in \<^verbatim>\<open>getGhostPiece\<close> and \<^verbatim>\<open>hardDrop\<close> of the richer ruleset (only the
  latter counts the rows) and in \<^verbatim>\<open>hardDrop\<close> and the \<^verbatim>\<open>ArrowUp\<close> key of the simpler one, each
  with its own \<^verbatim>\<open>collides\<close>, which is the parameter \<open>test\<close>. The loop need not end:
  \<open>None\<close> is the run that never leaves it.
\<close>

partial_function (option) descend ::
  "(board \<Rightarrow> piece \<Rightarrow> error + bool) \<Rightarrow> board \<Rightarrow> piece \<Rightarrow> int \<Rightarrow> (error + piece \<times> int) option"
where
  "descend test grid q dropDistance =
     (case test grid (q\<lparr>y := y q + 1\<rparr>) of
        Inl e \<Rightarrow> Some (Inl e)
      | Inr c \<Rightarrow>
          if c then Some (Inr (q, dropDistance))
          else descend test grid (q\<lparr>y := y q + 1\<rparr>) (dropDistance + 1))"


section \<open>Piece supply\<close>

text \<open>
  \<^verbatim>\<open>Math.floor(Math.random() * n)\<close> is some index below \<open>n\<close>. The draw is an input of the
  model: a natural number, reduced modulo \<open>n\<close>, so that every input is a possible draw and
  every possible draw is an input.
\<close>

definition rand :: "nat \<Rightarrow> nat \<Rightarrow> nat" where
  "rand r n = r mod n"

text \<open>\<^verbatim>\<open>randomPiece\<close> of the simpler ruleset.\<close>

definition randomPiece :: "nat \<Rightarrow> error + piece" where
  "randomPiece r = spawn (int (rand r (length SHAPES)))"

text \<open>
  The Fisher-Yates loop of \<^verbatim>\<open>refillBag\<close>, \<^verbatim>\<open>for (i = bag.length - 1; i > 0; i--)\<close>, with
  \<open>rnd i\<close> the draw made at index \<open>i\<close>; the swap
  \<^verbatim>\<open>[bag[i], bag[j]] = [bag[j], bag[i]]\<close> reads both cells before it writes.
\<close>

fun shuffle_down :: "nat \<Rightarrow> (nat \<Rightarrow> nat) \<Rightarrow> int list \<Rightarrow> int list" where
  "shuffle_down 0 rnd bag = bag"
| "shuffle_down (Suc k) rnd bag =
     (let i = Suc k; j = rand (rnd i) (i + 1)
      in shuffle_down k rnd (bag[i := bag ! j, j := bag ! i]))"

definition refillBag :: "(nat \<Rightarrow> nat) \<Rightarrow> int list" where
  "refillBag rnd = (let bag = [0,1,2,3,4,5,6] in shuffle_down (length bag - 1) rnd bag)"

text \<open>
  \<^verbatim>\<open>PieceBag.next\<close>: the bag is the state, returned with the piece. \<^verbatim>\<open>pop\<close> takes the last
  element; the bag is not empty there.
\<close>

definition PieceBag_next :: "(nat \<Rightarrow> nat) \<Rightarrow> int list \<Rightarrow> error + piece \<times> int list" where
  "PieceBag_next rnd bag =
     (let bag1 = (if bag = [] then refillBag rnd else bag);
          colorIdx = last bag1;
          bag2 = butlast bag1
      in case spawn colorIdx of
           Inl e \<Rightarrow> Inl e
         | Inr p \<Rightarrow> Inr (p, bag2))"

text \<open>Consecutive calls of \<^verbatim>\<open>next\<close>, one per element of the list of draws.\<close>

fun draws :: "(nat \<Rightarrow> nat) list \<Rightarrow> int list \<Rightarrow> error + piece list \<times> int list" where
  "draws [] bag = Inr ([], bag)"
| "draws (rnd # rnds) bag =
     (case PieceBag_next rnd bag of
        Inl e \<Rightarrow> Inl e
      | Inr (p, bag1) \<Rightarrow>
          (case draws rnds bag1 of
             Inl e \<Rightarrow> Inl e
           | Inr (ps, bag2) \<Rightarrow> Inr (p # ps, bag2)))"

section \<open>The session of the simpler ruleset\<close>

text \<open>
  The state of the component \<^verbatim>\<open>App\<close> of \<^verbatim>\<open>src/App.tsx\<close>. Every handler is one transition:
  it reads the state it was created in and its state updates are applied together. The
  fields carry the suffix \<open>_solo\<close>.
\<close>

record solo =
  grid_solo :: board
  piece_solo :: piece
  nextPiece_solo :: piece
  score_solo :: int
  level_solo :: int
  started_solo :: bool
  over_solo :: bool
  countdown_solo :: "int option"
  paused_solo :: bool

text \<open>
  The callback of the gravity interval. The interval exists only while the game is started,
  not over and not paused. \<open>r\<close> is the draw of the \<^verbatim>\<open>randomPiece\<close> that refills the preview.
\<close>

definition gravity_solo :: "nat \<Rightarrow> solo \<Rightarrow> error + solo" where
  "gravity_solo r s =
     (if \<not> started_solo s \<or> over_solo s \<or> paused_solo s then Inr s
      else
        let p = piece_solo s; nxt = p\<lparr>y := y p + 1\<rparr> in
        case collides_solo (grid_solo s) nxt of
          Inl e \<Rightarrow> Inl e
        | Inr False \<Rightarrow> Inr (s\<lparr>piece_solo := nxt\<rparr>)
        | Inr True \<Rightarrow>
            if y p = 0 then Inr (s\<lparr>over_solo := True\<rparr>)
            else
              (case merge_board (grid_solo s) p of
                 Inl e \<Rightarrow> Inl e
               | Inr merged \<Rightarrow>
                   let cl = clearLines merged in
                   (case randomPiece r of
                      Inl e \<Rightarrow> Inl e
                    | Inr fresh \<Rightarrow>
                        Inr (s\<lparr>grid_solo := newGrid cl,
                               score_solo := score_solo s + 10 + cleared cl * 100,
                               level_solo := level_solo s + cleared cl,
                               piece_solo := nextPiece_solo s,
                               nextPiece_solo := fresh\<rparr>))))"

text \<open>\<^verbatim>\<open>resetGame\<close>; it leaves \<^verbatim>\<open>paused\<close> as it is.\<close>

definition resetGame_solo :: "nat \<Rightarrow> nat \<Rightarrow> solo \<Rightarrow> error + solo" where
  "resetGame_solo r1 r2 s =
     (case randomPiece r1 of
        Inl e \<Rightarrow> Inl e
      | Inr p1 \<Rightarrow>
          (case randomPiece r2 of
             Inl e \<Rightarrow> Inl e
           | Inr p2 \<Rightarrow>
               Inr (s\<lparr>started_solo := False, over_solo := False, countdown_solo := None,
                      score_solo := 0, level_solo := 0, grid_solo := emptyGrid,
                      piece_solo := p1, nextPiece_solo := p2\<rparr>)))"

text \<open>
  The piece the key handler proposes: the copy \<^verbatim>\<open>np\<close> after the five \<^verbatim>\<open>if\<close>s on \<^verbatim>\<open>e.key\<close>
  (the keys exclude one another).
\<close>

definition onKey_proposal :: "string \<Rightarrow> board \<Rightarrow> piece \<Rightarrow> (error + piece) option" where
  "onKey_proposal key g p =
     (if key = ''ArrowLeft'' then Some (Inr (p\<lparr>x := x p - 1\<rparr>))
      else if key = ''ArrowRight'' then Some (Inr (p\<lparr>x := x p + 1\<rparr>))
      else if key = ''ArrowDown'' then Some (Inr (p\<lparr>y := y p + 1\<rparr>))
      else if key = '' '' then
        Some (case rotate_solo (shape p) of
                Inl e \<Rightarrow> Inl e
              | Inr turned_shape \<Rightarrow> Inr (p\<lparr>shape := turned_shape\<rparr>))
      else if key = ''ArrowUp'' then map_option (map_sum id fst) (descend collides_solo g p 0)
      else Some (Inr p))"

text \<open>The whole updater: \<^verbatim>\<open>return collides(grid, np) ? p : np\<close>.\<close>

definition onKey_piece :: "string \<Rightarrow> board \<Rightarrow> piece \<Rightarrow> (error + piece) option" where
  "onKey_piece key g p =
     (case onKey_proposal key g p of
        None \<Rightarrow> None
      | Some (Inl e) \<Rightarrow> Some (Inl e)
      | Some (Inr np) \<Rightarrow>
          Some (case collides_solo g np of
                  Inl e \<Rightarrow> Inl e
                | Inr c \<Rightarrow> Inr (if c then p else np)))"

text \<open>
  A key press in the simpler ruleset. Two listeners hear it: the first moves the piece and
  resets on \<^verbatim>\<open>r\<close>, the second toggles the pause on \<^verbatim>\<open>p\<close>. Both do nothing unless the game is
  started and not over. \<open>r1\<close> and \<open>r2\<close> are the draws of a reset.
\<close>

definition onKey_solo :: "string \<Rightarrow> nat \<Rightarrow> nat \<Rightarrow> solo \<Rightarrow> (error + solo) option" where
  "onKey_solo key r1 r2 s =
     (if \<not> started_solo s \<or> over_solo s then Some (Inr s)
      else
        case onKey_piece key (grid_solo s) (piece_solo s) of
          None \<Rightarrow> None
        | Some (Inl e) \<Rightarrow> Some (Inl e)
        | Some (Inr q) \<Rightarrow>
            let s1 = s\<lparr>piece_solo := q\<rparr> in
            if key = ''r'' then Some (resetGame_solo r1 r2 s1)
            else if key = ''p'' then Some (Inr (s1\<lparr>paused_solo := \<not> paused_solo s1\<rparr>))
            else Some (Inr s1))"

text \<open>The touch buttons of the simpler ruleset.\<close>

definition moveLeft_solo :: "solo \<Rightarrow> error + solo" where
  "moveLeft_solo s =
     (let p = piece_solo s; np = p\<lparr>x := x p - 1\<rparr> in
      case collides_solo (grid_solo s) np of
        Inl e \<Rightarrow> Inl e
      | Inr c \<Rightarrow> Inr (s\<lparr>piece_solo := (if c then p else np)\<rparr>))"

definition moveRight_solo :: "solo \<Rightarrow> error + solo" where
  "moveRight_solo s =
     (let p = piece_solo s; np = p\<lparr>x := x p + 1\<rparr> in
      case collides_solo (grid_solo s) np of
        Inl e \<Rightarrow> Inl e
      | Inr c \<Rightarrow> Inr (s\<lparr>piece_solo := (if c then p else np)\<rparr>))"

definition moveDown_solo :: "solo \<Rightarrow> error + solo" where
  "moveDown_solo s =
     (let p = piece_solo s; np = p\<lparr>y := y p + 1\<rparr> in
      case collides_solo (grid_solo s) np of
        Inl e \<Rightarrow> Inl e
      | Inr c \<Rightarrow> Inr (s\<lparr>piece_solo := (if c then p else np)\<rparr>))"

definition rotatePiece_solo :: "solo \<Rightarrow> error + solo" where
  "rotatePiece_solo s =
     (let p = piece_solo s in
      case rotate_solo (shape p) of
        Inl e \<Rightarrow> Inl e
      | Inr turned_shape \<Rightarrow>
          let np = p\<lparr>shape := turned_shape\<rparr> in
          (case collides_solo (grid_solo s) np of
             Inl e \<Rightarrow> Inl e
           | Inr c \<Rightarrow> Inr (s\<lparr>piece_solo := (if c then p else np)\<rparr>)))"


section \<open>The session of the richer ruleset\<close>

text \<open>
  The state of the component \<^verbatim>\<open>App\<close> of the richer ruleset, with the bag of
  \<^verbatim>\<open>pieceBag.current\<close>. \<^verbatim>\<open>null\<close> is \<open>None\<close>. The argument \<open>rnd\<close> of a transition holds the
  draws of the shuffle, should the bag be refilled during it.
\<close>

record session =
  grid :: board
  piece :: "piece option"
  nextPieces :: "piece list"
  holdPiece :: "piece option"
  canHold :: bool
  score :: int
  level :: int
  lines :: int
  started :: bool
  over :: bool
  countdown :: "int option"
  paused :: bool
  pieceBag :: "int list"

text \<open>\<^verbatim>\<open>Math.floor((COLS - p.shape[0].length) / 2)\<close>; \<^verbatim>\<open>shape[0]\<close> of an empty shape raises.\<close>

definition centered :: "piece \<Rightarrow> error + piece" where
  "centered p =
     (case shape p of
        [] \<Rightarrow> Inl TypeError
      | r0 # _ \<Rightarrow> Inr (p\<lparr>x := (int COLS - int (length r0)) div 2, y := 0\<rparr>))"

text \<open>
  \<^verbatim>\<open>lockPiece\<close>. \<^verbatim>\<open>nextPieces[0]\<close> of an empty queue is \<^verbatim>\<open>undefined\<close>, on which
  \<^verbatim>\<open>collides\<close> raises.
\<close>

definition lockPiece :: "(nat \<Rightarrow> nat) \<Rightarrow> session \<Rightarrow> error + session" where
  "lockPiece rnd s =
     (case piece s of
        None \<Rightarrow> Inr s
      | Some p \<Rightarrow>
          (case merge_board (grid s) p of
             Inl e \<Rightarrow> Inl e
           | Inr merged \<Rightarrow>
               let cl = clearLines merged;
                   s1 = s\<lparr>grid := newGrid cl\<rparr>;
                   s2 = (if cleared cl > 0
                         then s1\<lparr>score := score s1 + calculateScore (cleared cl) (level s),
                                 lines := lines s1 + cleared cl\<rparr>
                         else s1)
               in
               (case PieceBag_next rnd (pieceBag s) of
                  Inl e \<Rightarrow> Inl e
                | Inr (drawn, bag) \<Rightarrow>
                    let s3 = s2\<lparr>nextPieces := tl (nextPieces s) @ [drawn],
                                 piece := (case nextPieces s of [] \<Rightarrow> None | q # _ \<Rightarrow> Some q),
                                 canHold := True,
                                 pieceBag := bag\<rparr>
                    in
                    (case nextPieces s of
                       [] \<Rightarrow> Inl TypeError
                     | newPiece # _ \<Rightarrow>
                         (case collides (newGrid cl) newPiece of
                            Inl e \<Rightarrow> Inl e
                          | Inr c \<Rightarrow> Inr (if c then s3\<lparr>over := True\<rparr> else s3))))))"

text \<open>\<^verbatim>\<open>rotatePiece\<close>.\<close>

definition rotatePiece :: "session \<Rightarrow> error + session" where
  "rotatePiece s =
     (case piece s of
        None \<Rightarrow> Inr s
      | Some p \<Rightarrow>
          (case rotate (shape p) of
             Inl e \<Rightarrow> Inl e
           | Inr rotatedShape \<Rightarrow>
               let rotatedPiece = p\<lparr>shape := rotatedShape\<rparr> in
               (case collides (grid s) rotatedPiece of
                  Inl e \<Rightarrow> Inl e
                | Inr c \<Rightarrow> Inr (if \<not> c then s\<lparr>piece := Some rotatedPiece\<rparr> else s))))"

text \<open>\<^verbatim>\<open>hardDrop\<close>: the piece goes to where the loop leaves it, the score grows by twice the
  distance; nothing is locked.\<close>

definition hardDrop :: "session \<Rightarrow> (error + session) option" where
  "hardDrop s =
     (case piece s of
        None \<Rightarrow> Some (Inr s)
      | Some p \<Rightarrow>
          map_option
            (map_sum id (\<lambda>(droppedPiece, dropDistance).
               s\<lparr>piece := Some droppedPiece, score := score s + dropDistance * 2\<rparr>))
            (descend collides (grid s) p 0))"

text \<open>\<^verbatim>\<open>holdPieceAction\<close>.\<close>

definition holdPieceAction :: "(nat \<Rightarrow> nat) \<Rightarrow> session \<Rightarrow> error + session" where
  "holdPieceAction rnd s =
     (case piece s of
        None \<Rightarrow> Inr s
      | Some p \<Rightarrow>
          if \<not> canHold s then Inr s
          else
            (case holdPiece s of
               Some held \<Rightarrow>
                 (case centered p of
                    Inl e \<Rightarrow> Inl e
                  | Inr newHold \<Rightarrow>
                      (case centered held of
                         Inl e \<Rightarrow> Inl e
                       | Inr back \<Rightarrow>
                           Inr (s\<lparr>piece := Some back, holdPiece := Some newHold,
                                  canHold := False\<rparr>)))
             | None \<Rightarrow>
                 (case centered p of
                    Inl e \<Rightarrow> Inl e
                  | Inr newHold \<Rightarrow>
                      (case PieceBag_next rnd (pieceBag s) of
                         Inl e \<Rightarrow> Inl e
                       | Inr (drawn, bag) \<Rightarrow>
                           Inr (s\<lparr>holdPiece := Some newHold,
                                  nextPieces := tl (nextPieces s) @ [drawn],
                                  piece := (case nextPieces s of [] \<Rightarrow> None | q # _ \<Rightarrow> Some q),
                                  canHold := False,
                                  pieceBag := bag\<rparr>)))))"

text \<open>
  The callback of the gravity interval of the richer ruleset; the interval exists only while
  the game is started, not over, not paused and has a piece.
\<close>

definition gravity :: "(nat \<Rightarrow> nat) \<Rightarrow> session \<Rightarrow> error + session" where
  "gravity rnd s =
     (if \<not> started s \<or> over s \<or> paused s then Inr s
      else
        case piece s of
          None \<Rightarrow> Inr s
        | Some p \<Rightarrow>
            let next = p\<lparr>y := y p + 1\<rparr> in
            (case collides (grid s) next of
               Inl e \<Rightarrow> Inl e
             | Inr True \<Rightarrow> lockPiece rnd s
             | Inr False \<Rightarrow> Inr (s\<lparr>piece := Some next\<rparr>)))"

text \<open>A sideways move of the richer ruleset, \<open>dx\<close> being \<open>-1\<close> or \<open>1\<close>.\<close>

definition shift :: "int \<Rightarrow> session \<Rightarrow> error + session" where
  "shift dx s =
     (case piece s of
        None \<Rightarrow> Inr s
      | Some p \<Rightarrow>
          let newPiece = p\<lparr>x := x p + dx\<rparr> in
          (case collides (grid s) newPiece of
             Inl e \<Rightarrow> Inl e
           | Inr c \<Rightarrow> Inr (if c then s else s\<lparr>piece := Some newPiece\<rparr>)))"

text \<open>\<^verbatim>\<open>resetGame\<close> of the richer ruleset: a new bag and three draws from it.\<close>

definition resetGame :: "(nat \<Rightarrow> nat) \<Rightarrow> session \<Rightarrow> error + session" where
  "resetGame rnd s =
     (case draws [rnd, rnd, rnd] (refillBag rnd) of
        Inl e \<Rightarrow> Inl e
      | Inr (initialPieces, bag) \<Rightarrow>
          Inr (s\<lparr>started := False, over := False, countdown := None,
                 score := 0, level := 0, lines := 0, grid := emptyGrid,
                 holdPiece := None, canHold := True, pieceBag := bag,
                 nextPieces := initialPieces,
                 piece := (case initialPieces of [] \<Rightarrow> None | q # _ \<Rightarrow> Some q)\<rparr>))"

text \<open>\<^verbatim>\<open>handleKeyDown\<close>: the \<^verbatim>\<open>switch\<close> on \<^verbatim>\<open>e.key\<close>.\<close>

definition handleKeyDown :: "string \<Rightarrow> (nat \<Rightarrow> nat) \<Rightarrow> session \<Rightarrow> (error + session) option" where
  "handleKeyDown key rnd s =
     (if \<not> started s \<or> over s \<or> paused s then Some (Inr s)
      else if key = ''ArrowLeft'' then Some (shift (- 1) s)
      else if key = ''ArrowRight'' then Some (shift 1 s)
      else if key = ''ArrowDown'' then
        (case piece s of
           None \<Rightarrow> Some (Inr s)
         | Some p \<Rightarrow>
             let newPiece = p\<lparr>y := y p + 1\<rparr> in
             (case collides (grid s) newPiece of
                Inl e \<Rightarrow> Some (Inl e)
              | Inr True \<Rightarrow> Some (lockPiece rnd s)
              | Inr False \<Rightarrow> Some (Inr (s\<lparr>piece := Some newPiece\<rparr>))))
      else if key = ''ArrowUp'' then hardDrop s
      else if key = '' '' then Some (rotatePiece s)
      else if key = ''c'' \<or> key = ''C'' then Some (holdPieceAction rnd s)
      else if key = ''p'' \<or> key = ''P'' then Some (Inr (s\<lparr>paused := \<not> paused s\<rparr>))
      else if key = ''r'' \<or> key = ''R'' then Some (resetGame rnd s)
      else Some (Inr s))"

section \<open>States used as examples\<close>


text \<open>
  A running game of the richer ruleset on the empty board with the O piece where it spawns:
  the state after \<^verbatim>\<open>resetGame\<close> with a shuffle whose draws are all 0, once started
  (lemma \<open>running_O_reached\<close>).
\<close>

definition running_O :: session where
  "running_O =
     \<lparr>grid = emptyGrid, piece = Some O_spawn,
      nextPieces = [O_spawn,
                    \<lparr>shape = [[0,0,1],[1,1,1]], x = 3, y = 0, colorIdx = 6\<rparr>,
                    \<lparr>shape = [[1,0,0],[1,1,1]], x = 3, y = 0, colorIdx = 5\<rparr>],
      holdPiece = None, canHold = True, score = 0, level = 0, lines = 0,
      started = True, over = False, countdown = None, paused = False,
      pieceBag = [1,2,3,4]\<rparr>"

text \<open>A running game of the simpler ruleset on the empty board with the O piece.\<close>

definition running_O_solo :: solo where
  "running_O_solo =
     \<lparr>grid_solo = emptyGrid, piece_solo = O_spawn,
      nextPiece_solo = \<lparr>shape = [[1,1,1,1]], x = 3, y = 0, colorIdx = 1\<rparr>,
      score_solo = 0, level_solo = 0, started_solo = True, over_solo = False,
      countdown_solo = None, paused_solo = False\<rparr>"

text \<open>The empty board with the O piece lying on the floor, in columns 4 and 5.\<close>

definition floor_O_board :: board where
  "floor_O_board =
     replicate 18 (replicate COLS 0) @ [[0,0,0,0,1,1,0,0,0,0], [0,0,0,0,1,1,0,0,0,0]]"

text \<open>Both example games with the O piece on the floor, at \<open>y = 18\<close>.\<close>

definition resting_O :: session where
  "resting_O = running_O\<lparr>piece := Some (O_spawn\<lparr>y := 18\<rparr>)\<rparr>"

definition resting_O_solo :: solo where
  "resting_O_solo = running_O_solo\<lparr>piece_solo := O_spawn\<lparr>y := 18\<rparr>\<rparr>"

text \<open>Both example games with the O piece against the left wall.\<close>

definition wall_O :: session where
  "wall_O = running_O\<lparr>piece := Some (O_spawn\<lparr>x := 0\<rparr>)\<rparr>"

definition wall_O_solo :: solo where
  "wall_O_solo = running_O_solo\<lparr>piece_solo := O_spawn\<lparr>x := 0\<rparr>\<rparr>"

text \<open>A heap that holds the empty board in its first \<open>ROWS\<close> arrays and nothing else.\<close>

definition empty_board_heap :: heap where
  "empty_board_heap =
     \<lparr>arrays = (\<lambda>a. if a < ROWS then Some (array_of (replicate COLS 0)) else None),
      next_free = ROWS\<rparr>"

section \<open>Facts about collision\<close>

lemma some_from_Inr:
  assumes "\<And>i. i < length vs \<Longrightarrow> f (k + i) (vs ! i) = Inr (P (k + i) (vs ! i))"
  shows "some_from k f vs = Inr (\<exists>i < length vs. P (k + i) (vs ! i))"
  using assms
proof (induction vs arbitrary: k)
  case Nil
  then show ?case by simp
next
  case (Cons v vs)
  have hd: "f k v = Inr (P k v)"
    using Cons.prems [of 0] by simp
  have tl: "some_from (Suc k) f vs = Inr (\<exists>i < length vs. P (Suc k + i) (vs ! i))"
  proof (rule Cons.IH)
    fix i assume "i < length vs"
    then show "f (Suc k + i) (vs ! i) = Inr (P (Suc k + i) (vs ! i))"
      using Cons.prems [of "Suc i"] by simp
  qed
  have ex: "(\<exists>i < length (v # vs). P (k + i) ((v # vs) ! i)) \<longleftrightarrow>
            P k v \<or> (\<exists>i < length vs. P (Suc k + i) (vs ! i))"
    by (auto simp: less_Suc_eq_0_disj)
  have "some_from k f (v # vs) = Inr (P k v \<or> (\<exists>i < length vs. P (Suc k + i) (vs ! i)))"
    by (cases "P k v") (simp_all add: hd tl)
  then show ?case
    by (simp only: ex)
qed

lemma collides_hits:
  assumes "ROWS \<le> length g"
  shows "collides g p = Inr (hits g p)"
proof -
  let ?Q = "\<lambda>dy dx cell. cell \<noteq> 0 \<and>
        (x p + int dx < 0 \<or> x p + int dx \<ge> int COLS \<or> y p + int dy \<ge> int ROWS \<or>
         (0 \<le> y p + int dy \<and>
          nat (x p + int dx) < length (g ! nat (y p + int dy)) \<and>
          g ! nat (y p + int dy) ! nat (x p + int dx) \<noteq> 0))"
  let ?P = "\<lambda>dy row. \<exists>dx < length row. ?Q dy (0 + dx) (row ! dx)"
  have "collides g p = Inr (\<exists>dy < length (shape p). ?P (0 + dy) (shape p ! dy))"
    unfolding collides_def
  proof (rule some_from_Inr)
    fix dy assume "dy < length (shape p)"
    show "some_from 0 (\<lambda>dx cell.
         if cell = 0 then Inr False
         else
           let newX = x p + int dx; newY = y p + int (0 + dy) in
           if newX < 0 \<or> newX \<ge> int COLS \<or> newY \<ge> int ROWS then Inr True
           else if newY \<ge> 0 then grid_truthy g newY newX
           else Inr False) (shape p ! dy) = Inr (?P (0 + dy) (shape p ! dy))"
    proof (rule some_from_Inr)
      fix dx
      show "(if shape p ! dy ! dx = 0 then Inr False
         else
           let newX = x p + int (0 + dx); newY = y p + int (0 + dy) in
           if newX < 0 \<or> newX \<ge> int COLS \<or> newY \<ge> int ROWS then Inr True
           else if newY \<ge> 0 then grid_truthy g newY newX
           else Inr False) = Inr (?Q (0 + dy) (0 + dx) (shape p ! dy ! dx))"
        using assms by (auto simp: grid_truthy_def Let_def)
    qed
  qed
  also have "(\<exists>dy < length (shape p). ?P (0 + dy) (shape p ! dy)) = hits g p"
    unfolding hits_def occupied_def by auto
  finally show ?thesis .
qed

lemma collides_solo_hits:
  assumes "ROWS \<le> length g"
  shows "collides_solo g p = Inr (hits g p)"
proof -
  let ?Q = "\<lambda>dy dx cell. cell \<noteq> 0 \<and>
        (x p + int dx < 0 \<or> x p + int dx \<ge> int COLS \<or> y p + int dy \<ge> int ROWS \<or>
         (0 \<le> y p + int dy \<and>
          nat (x p + int dx) < length (g ! nat (y p + int dy)) \<and>
          g ! nat (y p + int dy) ! nat (x p + int dx) \<noteq> 0))"
  let ?P = "\<lambda>dy row. \<exists>dx < length row. ?Q dy (0 + dx) (row ! dx)"
  have "collides_solo g p = Inr (\<exists>dy < length (shape p). ?P (0 + dy) (shape p ! dy))"
    unfolding collides_solo_def
  proof (rule some_from_Inr)
    fix dy assume "dy < length (shape p)"
    show "some_from 0 (\<lambda>dx v.
         if v = 0 then Inr False
         else if y p + int (0 + dy) \<ge> int ROWS \<or> x p + int dx < 0 \<or> x p + int dx \<ge> int COLS
           then Inr True
         else if y p + int (0 + dy) \<ge> 0 then grid_truthy g (y p + int (0 + dy)) (x p + int dx)
         else Inr False) (shape p ! dy) = Inr (?P (0 + dy) (shape p ! dy))"
    proof (rule some_from_Inr)
      fix dx
      show "(if shape p ! dy ! dx = 0 then Inr False
         else if y p + int (0 + dy) \<ge> int ROWS \<or> x p + int (0 + dx) < 0
              \<or> x p + int (0 + dx) \<ge> int COLS
           then Inr True
         else if y p + int (0 + dy) \<ge> 0
           then grid_truthy g (y p + int (0 + dy)) (x p + int (0 + dx))
         else Inr False) = Inr (?Q (0 + dy) (0 + dx) (shape p ! dy ! dx))"
        using assms by (auto simp: grid_truthy_def)
    qed
  qed
  also have "(\<exists>dy < length (shape p). ?P (0 + dy) (shape p ! dy)) = hits g p"
    unfolding hits_def occupied_def by auto
  finally show ?thesis .
qed

lemma wf_board_row: "wf_board g \<Longrightarrow> r < ROWS \<Longrightarrow> length (g ! r) = COLS"
  by (simp add: wf_board_def)

lemma hits_wf:
  assumes "wf_board B"
  shows "hits B P \<longleftrightarrow>
     (\<exists>dy dx. occupied P dy dx \<and>
        (x P + int dx < 0 \<or> int COLS \<le> x P + int dx \<or> int ROWS \<le> y P + int dy \<or>
         (0 \<le> y P + int dy \<and> y P + int dy < int ROWS \<and>
          0 \<le> x P + int dx \<and> x P + int dx < int COLS \<and>
          B ! nat (y P + int dy) ! nat (x P + int dx) \<noteq> 0)))"
proof -
  have len: "length (B ! nat r) = COLS" if "0 \<le> r" "r < int ROWS" for r
    using that assms by (intro wf_board_row) auto
  show ?thesis
    unfolding hits_def
    apply (intro ex_cong1 conj_cong refl)
    subgoal for dy dx
      using len [of "y P + int dy"] by (cases "y P + int dy < int ROWS") auto
    done
qed

lemma spawn_O: "spawn 0 = Inr O_spawn"
  by (simp add: spawn_def SHAPES_def O_spawn_def COLS_def)

lemma occupied_O: "occupied (O_spawn\<lparr>y := k\<rparr>) dy dx \<longleftrightarrow> dy < 2 \<and> dx < 2"
  by (auto simp: occupied_def O_spawn_def nth_Cons' less_Suc_eq numeral_2_eq_2)

lemma wf_emptyGrid: "wf_board emptyGrid"
  by (simp add: wf_board_def emptyGrid_def)

lemma emptyGrid_nth: "r < ROWS \<Longrightarrow> c < COLS \<Longrightarrow> emptyGrid ! r ! c = 0"
  by (simp add: emptyGrid_def)

section \<open>What a collision is\<close>

text \<open>
  C1. On a board of \<open>ROWS\<close> rows of \<open>COLS\<close> cells, \<^verbatim>\<open>collides\<close> returns (without raising) true
  exactly when some occupied cell of the piece, moved to the piece's position, has its column
  outside \<open>[0, COLS)\<close>, or its row at or past \<open>ROWS\<close>, or has a row \<open>\<ge> 0\<close> and lies on a
  non-empty cell of the board. Both rulesets' \<^verbatim>\<open>collides\<close> agree. Cells with a negative row are
  never compared with the board: for a piece all of whose occupied cells are above row 0,
  the answer is decided by the column bounds alone, whatever the board holds.
\<close>

theorem collides_iff:
  assumes "wf_board B"
  shows "collides B P = Inr (\<exists>dy dx. occupied P dy dx \<and>
        (x P + int dx < 0 \<or> int COLS \<le> x P + int dx \<or> int ROWS \<le> y P + int dy \<or>
         (0 \<le> y P + int dy \<and> y P + int dy < int ROWS \<and>
          0 \<le> x P + int dx \<and> x P + int dx < int COLS \<and>
          B ! nat (y P + int dy) ! nat (x P + int dx) \<noteq> 0)))
      \<and> collides_solo B P = collides B P
      \<and> ((\<forall>dy dx. occupied P dy dx \<longrightarrow> y P + int dy < 0) \<longrightarrow>
           collides B P = Inr (\<exists>dy dx. occupied P dy dx \<and>
              (x P + int dx < 0 \<or> int COLS \<le> x P + int dx)))"
proof -
  have len: "ROWS \<le> length B"
    using assms by (simp add: wf_board_def)
  have a: "collides B P = Inr (hits B P)"
    by (rule collides_hits [OF len])
  have b: "collides_solo B P = Inr (hits B P)"
    by (rule collides_solo_hits [OF len])
  have c: "hits B P \<longleftrightarrow> (\<exists>dy dx. occupied P dy dx \<and>
              (x P + int dx < 0 \<or> int COLS \<le> x P + int dx))"
    if "\<forall>dy dx. occupied P dy dx \<longrightarrow> y P + int dy < 0"
    using that unfolding hits_def by fastforce
  show ?thesis
    using a b c hits_wf [OF assms, of P] by simp
qed

theorem collides_iff_witness:
  "wf_board emptyGrid \<and> collides emptyGrid (O_spawn\<lparr>y := - 2\<rparr>) = Inr False
   \<and> collides_solo emptyGrid (O_spawn\<lparr>y := - 2\<rparr>) = Inr False"
proof -
  have h: "wf_board emptyGrid"
    by (rule wf_emptyGrid)
  have above: "\<forall>dy dx. occupied (O_spawn\<lparr>y := - 2\<rparr>) dy dx \<longrightarrow> y (O_spawn\<lparr>y := - 2\<rparr>) + int dy < 0"
    by (auto simp: occupied_O)
  show ?thesis
    using h above collides_iff [OF h, of "O_spawn\<lparr>y := - 2\<rparr>"]
    apply (simp add: occupied_O)
    apply (auto simp: O_spawn_def COLS_def)
    done 
qed

section \<open>Facts about merging\<close>

lemma forEach_from_inv:
  assumes "I k s"
    and "\<And>i s. i < length vs \<Longrightarrow> I (k + i) s \<Longrightarrow> \<exists>s'. f (k + i) (vs ! i) s = Inr s' \<and> I (Suc (k + i)) s'"
  shows "\<exists>s'. forEach_from k f vs s = Inr s' \<and> I (k + length vs) s'"
  using assms
proof (induction vs arbitrary: k s)
  case Nil
  then show ?case by simp
next
  case (Cons v vs)
  from Cons.prems(2) [of 0 s] Cons.prems(1)
  obtain s1 where s1: "f k v s = Inr s1" "I (Suc k) s1"
    by auto
  have "\<exists>s'. forEach_from (Suc k) f vs s1 = Inr s' \<and> I (Suc k + length vs) s'"
  proof (rule Cons.IH [OF s1(2)])
    fix i s assume "i < length vs" "I (Suc k + i) s"
    then show "\<exists>s'. f (Suc k + i) (vs ! i) s = Inr s' \<and> I (Suc (Suc k + i)) s'"
      using Cons.prems(2) [of "Suc i" s] by simp
  qed
  then show ?case
    by (simp add: s1)
qed

lemma painted_empty: "painted {} g v g"
  by (simp add: painted_def)

lemma painted_insert:
  assumes "painted S g v ng" "r < length g" "c < length (g ! r)"
  shows "painted (insert (r, c) S) g v (ng[r := (ng ! r)[c := v]])"
  using assms unfolding painted_def
  by (auto simp: nth_list_update)


lemma rowset_0: "rowset p dy 0 = {}"
  by (simp add: rowset_def)

lemma rowset_Suc:
  "rowset p dy (Suc k) =
     (if occupied p dy k \<and> 0 \<le> y p + int dy
      then insert (nat (y p + int dy), nat (x p + int k)) (rowset p dy k)
      else rowset p dy k)"
  unfolding rowset_def by (auto simp: less_Suc_eq)

lemma cellset_0: "cellset p 0 = {}"
  by (simp add: cellset_def)

lemma cellset_Suc: "cellset p (Suc k) = cellset p k \<union> rowset p k (length (shape p ! k))"
  by (auto simp: cellset_def lessThan_Suc)

lemma merge_row:
  assumes fit: "fits g p" and dy: "dy < length (shape p)"
    and inv: "painted (cellset p dy) g v ng"
  shows "\<exists>ng'. forEach_from 0 (\<lambda>dx c ng.
           if c \<noteq> 0 \<and> y p + int dy \<ge> 0
           then set_cell ng (y p + int dy) (x p + int dx) v
           else Inr ng) (shape p ! dy) ng = Inr ng'
         \<and> painted (cellset p (Suc dy)) g v ng'"
proof -
  let ?J = "\<lambda>k ng. painted (cellset p dy \<union> rowset p dy k) g v ng"
  let ?f = "\<lambda>dx c ng.
           if c \<noteq> 0 \<and> y p + int dy \<ge> 0
           then set_cell ng (y p + int dy) (x p + int dx) v
           else Inr ng"
  have "\<exists>ng'. forEach_from 0 ?f (shape p ! dy) ng = Inr ng'
          \<and> ?J (0 + length (shape p ! dy)) ng'"
  proof (rule forEach_from_inv)
    show "?J 0 ng"
      using inv by (simp add: rowset_0)
  next
    fix i s
    assume i: "i < length (shape p ! dy)" and J: "?J (0 + i) s"
    show "\<exists>s'. ?f (0 + i) (shape p ! dy ! i) s = Inr s' \<and> ?J (Suc (0 + i)) s'"
    proof (cases "shape p ! dy ! i \<noteq> 0 \<and> y p + int dy \<ge> 0")
      case True
      then have occ: "occupied p dy i"
        using dy i by (simp add: occupied_def)
      from fit occ True
      have rng: "nat (y p + int dy) < length g" "0 \<le> x p + int i"
        "nat (x p + int i) < length (g ! nat (y p + int dy))"
        unfolding fits_def by blast+
      have len: "length s = length g"
        "length (s ! nat (y p + int dy)) = length (g ! nat (y p + int dy))"
        using J rng(1) by (simp_all add: painted_def)
      have "set_cell s (y p + int dy) (x p + int i) v =
              Inr (s[nat (y p + int dy) := (s ! nat (y p + int dy))[nat (x p + int i) := v]])"
        using True rng len by (simp add: set_cell_def)
      moreover have "?J (Suc i) (s[nat (y p + int dy) := (s ! nat (y p + int dy))[nat (x p + int i) := v]])"
        using painted_insert [OF _ rng(1) rng(3), of "cellset p dy \<union> rowset p dy i" v s] J occ True
        by (simp add: rowset_Suc)
      ultimately show ?thesis
        using True by simp
    next
      case False
      then have "rowset p dy (Suc i) = rowset p dy i"
        by (auto simp: rowset_Suc occupied_def)
      then show ?thesis
        using False J by auto
    qed
  qed
  then show ?thesis
    by (simp add: cellset_Suc)
qed

lemma merge_painted:
  assumes fit: "fits g p"
  shows "\<exists>ng. merge_board g p = Inr ng \<and> painted (cellset p (length (shape p))) g (colorIdx p + 1) ng"
proof -
  let ?v = "colorIdx p + 1"
  let ?I = "\<lambda>k ng. painted (cellset p k) g ?v ng"
  have "\<exists>ng. merge_board g p = Inr ng \<and> ?I (0 + length (shape p)) ng"
    unfolding merge_board_def
  proof (rule forEach_from_inv)
    show "?I 0 g"
      by (simp add: cellset_0 painted_empty)
  next
    fix i s
    assume "i < length (shape p)" "?I (0 + i) s"
    then show "\<exists>s'. forEach_from 0 (\<lambda>dx v ng.
         if v \<noteq> 0 \<and> y p + int (0 + i) \<ge> 0
         then set_cell ng (y p + int (0 + i)) (x p + int dx) (colorIdx p + 1)
         else Inr ng) (shape p ! i) s = Inr s' \<and> ?I (Suc (0 + i)) s'"
      using merge_row [OF fit, of i ?v s] by (simp cong: if_cong)
  qed
  then show ?thesis by simp
qed

lemma cellset_covered:
  assumes "fits g p"
  shows "(r, c) \<in> cellset p (length (shape p)) \<longleftrightarrow> covered p r c"
proof
  assume "(r, c) \<in> cellset p (length (shape p))"
  then obtain dy dx where d: "occupied p dy dx" "0 \<le> y p + int dy"
      "r = nat (y p + int dy)" "c = nat (x p + int dx)"
    by (auto simp: cellset_def rowset_def)
  then have "0 \<le> x p + int dx"
    using assms unfolding fits_def by blast
  then show "covered p r c"
    unfolding covered_def using d by (intro exI [of _ dy] exI [of _ dx]) simp
next
  assume "covered p r c"
  then obtain dy dx where d: "occupied p dy dx" "y p + int dy = int r" "x p + int dx = int c"
    unfolding covered_def by blast
  have "(nat (y p + int dy), nat (x p + int dx)) \<in> rowset p dy (length (shape p ! dy))"
    unfolding rowset_def using d by (auto simp: occupied_def intro!: exI [of _ dx])
  moreover have "dy < length (shape p)"
    using d(1) by (simp add: occupied_def)
  ultimately show "(r, c) \<in> cellset p (length (shape p))"
    unfolding cellset_def using d by auto
qed

lemma merge_cells:
  assumes "fits g p"
  shows "\<exists>ng. merge_board g p = Inr ng \<and> length ng = length g \<and>
           (\<forall>r < length g. length (ng ! r) = length (g ! r) \<and>
              (\<forall>c < length (g ! r).
                 ng ! r ! c = (if covered p r c then colorIdx p + 1 else g ! r ! c)))"
  using merge_painted [OF assms] cellset_covered [OF assms]
  unfolding painted_def by auto


lemma not_colliding_fits:
  assumes "wf_board g" "collides g p = Inr False"
  shows "fits g p"
proof -
  have "\<not> hits g p"
    using assms collides_hits [of g p] by (simp add: wf_board_def)
  then have free: "0 \<le> x p + int dx \<and> x p + int dx < int COLS \<and> y p + int dy < int ROWS"
    if "occupied p dy dx" for dy dx
    using that unfolding hits_def by (meson not_le)
  show ?thesis
    unfolding fits_def
  proof (intro allI impI)
    fix dy dx
    assume a: "occupied p dy dx \<and> 0 \<le> y p + int dy"
    from free [of dy dx] a
    have b: "0 \<le> x p + int dx" "x p + int dx < int COLS" "y p + int dy < int ROWS"
      by simp_all
    have "nat (y p + int dy) < ROWS"
      using a b by linarith
    moreover from this have "length (g ! nat (y p + int dy)) = COLS"
      using assms(1) by (rule wf_board_row [rotated])
    ultimately show "nat (y p + int dy) < length g \<and> 0 \<le> x p + int dx \<and>
        nat (x p + int dx) < length (g ! nat (y p + int dy))"
      using assms(1) b by (simp add: wf_board_def)
  qed
qed


section \<open>Facts about \<open>merge\<close>\<close>

lemma spread_array_of: "spread (array_of xs) = array_of xs"
  by (auto simp: spread_def array_of_def)

lemma board_at_Cons:
  "board_at h (r # rs) b \<longleftrightarrow>
     (\<exists>row b'. b = row # b' \<and> arrays h r = Some (array_of row) \<and> board_at h rs b')"
proof (cases b)
  case Nil
  then show ?thesis by (simp add: board_at_def)
next
  case (Cons row b')
  then show ?thesis
    by (auto simp: board_at_def All_less_Suc2)
qed

lemma board_at_allocated:
  assumes "\<forall>a \<ge> next_free h. arrays h a = None" "board_at h g b" "a \<in> set g"
  shows "a < next_free h"
proof -
  obtain i where "i < length g" "g ! i = a"
    using assms(3) by (auto simp: in_set_conv_nth)
  then have "arrays h a \<noteq> None"
    using assms(2) by (auto simp: board_at_def)
  then show ?thesis
    using assms(1) by (meson not_le)
qed

lemma copy_rows_fresh:
  assumes "\<forall>a \<ge> next_free h. arrays h a = None" and "board_at h g b"
  shows "\<exists>ng h1. copy_rows g h = Inr (ng, h1) \<and> board_at h1 ng b \<and> distinct ng \<and>
           (\<forall>a \<in> set ng. next_free h \<le> a) \<and>
           (\<forall>a < next_free h. arrays h1 a = arrays h a) \<and>
           (\<forall>a \<ge> next_free h1. arrays h1 a = None) \<and> next_free h \<le> next_free h1"
  using assms
proof (induction g arbitrary: h b)
  case Nil
  then show ?case by (simp add: board_at_def)
next
  case (Cons r rs)
  from Cons.prems(2) obtain row b' where b: "b = row # b'" "arrays h r = Some (array_of row)"
      "board_at h rs b'"
    by (auto simp: board_at_Cons)
  let ?a = "next_free h"
  let ?h1 = "h\<lparr>arrays := (arrays h)(?a := Some (array_of row)), next_free := Suc ?a\<rparr>"
  have old: "x < ?a" if "x \<in> set rs" for x
    using board_at_allocated [OF Cons.prems(1) b(3) that] .
  have ok1: "\<forall>x \<ge> next_free ?h1. arrays ?h1 x = None"
    using Cons.prems(1) by simp
  have "arrays ?h1 (rs ! i) = arrays h (rs ! i)" if "i < length rs" for i
    using old [of "rs ! i"] that by simp
  then have rs1: "board_at ?h1 rs b'"
    using b(3) by (simp add: board_at_def)
  from Cons.IH [OF ok1 rs1]
  obtain ng h2 where ih: "copy_rows rs ?h1 = Inr (ng, h2)" "board_at h2 ng b'"
      "distinct ng" "\<forall>x \<in> set ng. next_free ?h1 \<le> x"
      "\<forall>x < next_free ?h1. arrays h2 x = arrays ?h1 x"
      "\<forall>x \<ge> next_free h2. arrays h2 x = None" "next_free ?h1 \<le> next_free h2"
    by blast
  have run: "copy_rows (r # rs) h = Inr (?a # ng, h2)"
    using b(2) ih(1) by (simp add: new_array_def spread_array_of)
  have a2: "arrays h2 ?a = Some (array_of row)"
    using ih(5) by simp
  have "board_at h2 (?a # ng) b"
    using a2 ih(2) b(1) by (simp add: board_at_Cons)
  moreover have "distinct (?a # ng)"
    using ih(3,4) by auto
  moreover have "\<forall>x \<in> set (?a # ng). ?a \<le> x"
    using ih(4) by auto
  moreover have "\<forall>x < ?a. arrays h2 x = arrays h x"
    using ih(5) by simp
  moreover have "?a \<le> next_free h2"
    using ih(7) by simp
  ultimately show ?case
    using run ih(6) by blast
qed

lemma written_start:
  assumes "board_at h1 ng b"
  shows "written {} b v ng h1 h1"
  using assms by (simp add: written_def board_at_def array_of_def)

lemma written_put:
  assumes w: "written S b v ng h1 h" and r: "r < length ng" and d: "distinct ng"
  shows "\<exists>h'. set_cell_at ng (int r) c v h = Inr h' \<and> written (insert (r, c) S) b v ng h1 h'"
proof -
  from w r obtain arr where arr: "arrays h (ng ! r) = Some arr"
      "\<And>k. slot arr k = (if (r, k) \<in> S then Some v else slot (array_of (b ! r)) k)"
      "length (b ! r) \<le> len arr"
      "\<And>k. (r, k) \<in> S \<Longrightarrow> 0 \<le> k \<Longrightarrow> k < 4294967295 \<Longrightarrow> nat k < len arr"
      "len arr = length (b ! r) \<or>
         (\<exists>k. (r, k) \<in> S \<and> 0 \<le> k \<and> k < 4294967295 \<and> len arr = Suc (nat k))"
    unfolding written_def by blast
  let ?h = "h\<lparr>arrays := (arrays h)(ng ! r := Some (put arr c v))\<rparr>"
  have run: "set_cell_at ng (int r) c v h = Inr ?h"
    using r arr(1) by (simp add: set_cell_at_def)
  have row: "\<exists>arr'. arrays ?h (ng ! i) = Some arr' \<and>
        (\<forall>k. slot arr' k = (if (i, k) \<in> insert (r, c) S then Some v else slot (array_of (b ! i)) k)) \<and>
        length (b ! i) \<le> len arr' \<and>
        (\<forall>k. (i, k) \<in> insert (r, c) S \<and> 0 \<le> k \<and> k < 4294967295 \<longrightarrow> nat k < len arr') \<and>
        (len arr' = length (b ! i) \<or>
         (\<exists>k. (i, k) \<in> insert (r, c) S \<and> 0 \<le> k \<and> k < 4294967295 \<and> len arr' = Suc (nat k)))"
    if i: "i < length ng" for i
  proof (cases "i = r")
    case True
    have 1: "arrays ?h (ng ! r) = Some (put arr c v)"
      by simp
    have 2: "slot (put arr c v) k =
               (if (r, k) \<in> insert (r, c) S then Some v else slot (array_of (b ! r)) k)" for k
      using arr(2) [of k] by (simp add: put_def)
    have 3: "length (b ! r) \<le> len (put arr c v)"
      using arr(3) by (simp add: put_def)
    have 4: "nat k < len (put arr c v)"
      if "(r, k) \<in> insert (r, c) S" "0 \<le> k" "k < 4294967295" for k
    proof (cases "k = c")
      case True
      then show ?thesis
        using that by (simp add: put_def)
    next
      case False
      then have "nat k < len arr"
        using that arr(4) [of k] by simp
      then show ?thesis
        by (simp add: put_def)
    qed
    have 5: "len (put arr c v) = length (b ! r) \<or>
         (\<exists>k. (r, k) \<in> insert (r, c) S \<and> 0 \<le> k \<and> k < 4294967295 \<and> len (put arr c v) = Suc (nat k))"
    proof (cases "0 \<le> c \<and> c < 4294967295 \<and> len arr \<le> nat c")
      case True
      then have "(r, c) \<in> insert (r, c) S \<and> 0 \<le> c \<and> c < 4294967295 \<and> len (put arr c v) = Suc (nat c)"
        by (simp add: put_def)
      then show ?thesis by blast
    next
      case False
      then have "len (put arr c v) = len arr"
        by (auto simp: put_def)
      then show ?thesis
        using arr(5) by auto
    qed
    from 1 2 3 4 5 show ?thesis
      unfolding True by blast
  next
    case False
    then have ne: "ng ! i \<noteq> ng ! r"
      using d i r by (simp add: nth_eq_iff_index_eq)
    from w i obtain arr' where arr': "arrays h (ng ! i) = Some arr'"
        "\<forall>k. slot arr' k = (if (i, k) \<in> S then Some v else slot (array_of (b ! i)) k)"
        "length (b ! i) \<le> len arr'"
        "\<forall>k. (i, k) \<in> S \<and> 0 \<le> k \<and> k < 4294967295 \<longrightarrow> nat k < len arr'"
        "len arr' = length (b ! i) \<or>
           (\<exists>k. (i, k) \<in> S \<and> 0 \<le> k \<and> k < 4294967295 \<and> len arr' = Suc (nat k))"
      unfolding written_def by blast
    have "arrays ?h (ng ! i) = Some arr'"
      using ne arr'(1) by simp
    then show ?thesis
      using arr'(2-5) False by auto
  qed
  have "arrays ?h a = arrays h1 a" if "a \<notin> set ng" for a
  proof -
    have "a \<noteq> ng ! r"
      using that r by auto
    then show ?thesis
      using w that by (simp add: written_def)
  qed
  with row have "written (insert (r, c) S) b v ng h1 ?h"
    unfolding written_def by blast
  with run show ?thesis by blast
qed

lemma rowkeys_0: "rowkeys p dy 0 = {}"
  by (simp add: rowkeys_def)

lemma rowkeys_Suc:
  "rowkeys p dy (Suc k) =
     (if occupied p dy k \<and> 0 \<le> js_add (y p) (int dy)
      then insert (nat (js_add (y p) (int dy)), js_add (x p) (int k)) (rowkeys p dy k)
      else rowkeys p dy k)"
  unfolding rowkeys_def by (auto simp: less_Suc_eq)

lemma cellkeys_0: "cellkeys p 0 = {}"
  by (simp add: cellkeys_def)

lemma cellkeys_Suc: "cellkeys p (Suc k) = cellkeys p k \<union> rowkeys p k (length (shape p ! k))"
  by (auto simp: cellkeys_def lessThan_Suc)

lemma merge_row_written:
  assumes rows: "on_rows b p" and dy: "dy < length (shape p)" and d: "distinct ng"
    and n: "length ng = length b"
    and inv: "written (cellkeys p dy) b v ng h1 h"
  shows "\<exists>h'. forEach_from 0 (\<lambda>dx c h.
           if c \<noteq> 0 \<and> js_add (y p) (int dy) \<ge> 0
           then set_cell_at ng (js_add (y p) (int dy)) (js_add (x p) (int dx)) v h
           else Inr h) (shape p ! dy) h = Inr h'
         \<and> written (cellkeys p (Suc dy)) b v ng h1 h'"
proof -
  let ?J = "\<lambda>k h. written (cellkeys p dy \<union> rowkeys p dy k) b v ng h1 h"
  let ?f = "\<lambda>dx c h.
           if c \<noteq> 0 \<and> js_add (y p) (int dy) \<ge> 0
           then set_cell_at ng (js_add (y p) (int dy)) (js_add (x p) (int dx)) v h
           else Inr h"
  have "\<exists>h'. forEach_from 0 ?f (shape p ! dy) h = Inr h'
          \<and> ?J (0 + length (shape p ! dy)) h'"
  proof (rule forEach_from_inv)
    show "?J 0 h"
      using inv by (simp add: rowkeys_0)
  next
    fix i s
    assume i: "i < length (shape p ! dy)" and J: "?J (0 + i) s"
    show "\<exists>s'. ?f (0 + i) (shape p ! dy ! i) s = Inr s' \<and> ?J (Suc (0 + i)) s'"
    proof (cases "shape p ! dy ! i \<noteq> 0 \<and> js_add (y p) (int dy) \<ge> 0")
      case True
      then have occ: "occupied p dy i"
        using dy i by (simp add: occupied_def)
      let ?r = "nat (js_add (y p) (int dy))"
      have r: "?r < length ng" "int ?r = js_add (y p) (int dy)"
        using rows occ True n unfolding on_rows_def by auto
      from written_put [OF _ r(1) d, of "cellkeys p dy \<union> rowkeys p dy i" b v h1 s "js_add (x p) (int i)"] J
      obtain h' where h': "set_cell_at ng (int ?r) (js_add (x p) (int i)) v s = Inr h'"
          "written (insert (?r, js_add (x p) (int i)) (cellkeys p dy \<union> rowkeys p dy i)) b v ng h1 h'"
        by auto
      have step: "set_cell_at ng (js_add (y p) (int dy)) (js_add (x p) (int i)) v s = Inr h'"
        using h'(1) unfolding r(2) .
      have "?J (Suc i) h'"
        using h'(2) occ True by (simp add: rowkeys_Suc)
      then show ?thesis
        using True step by simp
    next
      case False
      then have "rowkeys p dy (Suc i) = rowkeys p dy i"
        by (auto simp: rowkeys_Suc occupied_def)
      then show ?thesis
        using False J by auto
    qed
  qed
  then show ?thesis
    by (simp add: cellkeys_Suc)
qed

lemma cellkeys_covers:
  "(r, c) \<in> cellkeys p (length (shape p)) \<longleftrightarrow> covers p r c"
proof
  assume "(r, c) \<in> cellkeys p (length (shape p))"
  then obtain dy dx where d: "occupied p dy dx" "0 \<le> js_add (y p) (int dy)"
      "r = nat (js_add (y p) (int dy))" "c = js_add (x p) (int dx)"
    by (auto simp: cellkeys_def rowkeys_def)
  then show "covers p r c"
    unfolding covers_def by (intro exI [of _ dy] exI [of _ dx]) simp
next
  assume "covers p r c"
  then obtain dy dx where d: "occupied p dy dx" "js_add (y p) (int dy) = int r"
      "js_add (x p) (int dx) = c"
    unfolding covers_def by blast
  have "(nat (js_add (y p) (int dy)), js_add (x p) (int dx)) \<in> rowkeys p dy (length (shape p ! dy))"
    unfolding rowkeys_def using d by (auto simp: occupied_def intro!: exI [of _ dx])
  moreover have "dy < length (shape p)"
    using d(1) by (simp add: occupied_def)
  ultimately show "(r, c) \<in> cellkeys p (length (shape p))"
    unfolding cellkeys_def using d by auto
qed

lemma merge_written:
  assumes ok: "\<forall>a \<ge> next_free h. arrays h a = None" and g: "board_at h g b"
    and rows: "on_rows b p"
  shows "\<exists>ng h1 h2. merge g p h = Inr (ng, h2) \<and> length ng = length b \<and> distinct ng \<and>
           (\<forall>a \<in> set ng. next_free h \<le> a) \<and>
           (\<forall>a < next_free h. arrays h1 a = arrays h a) \<and>
           written (cellkeys p (length (shape p))) b (js_add (colorIdx p) 1) ng h1 h2"
proof -
  from copy_rows_fresh [OF ok g]
  obtain ng h1 where c: "copy_rows g h = Inr (ng, h1)" "board_at h1 ng b" "distinct ng"
      "\<forall>a \<in> set ng. next_free h \<le> a" "\<forall>a < next_free h. arrays h1 a = arrays h a"
    by blast
  have n: "length ng = length b"
    using c(2) by (simp add: board_at_def)
  let ?v = "js_add (colorIdx p) 1"
  let ?I = "\<lambda>k h. written (cellkeys p k) b ?v ng h1 h"
  let ?loops = "forEach_from 0 (\<lambda>dy row h.
                  forEach_from 0 (\<lambda>dx v h.
                    if v \<noteq> 0 \<and> js_add (y p) (int dy) \<ge> 0
                    then set_cell_at ng (js_add (y p) (int dy)) (js_add (x p) (int dx)) ?v h
                    else Inr h) row h) (shape p) h1"
  have "\<exists>h2. ?loops = Inr h2 \<and> ?I (0 + length (shape p)) h2"
  proof (rule forEach_from_inv)
    show "?I 0 h1"
      using written_start [OF c(2)] by (simp add: cellkeys_0)
  next
    fix i s
    assume "i < length (shape p)" "?I (0 + i) s"
    then show "\<exists>s'. forEach_from 0 (\<lambda>dx v h.
         if v \<noteq> 0 \<and> js_add (y p) (int (0 + i)) \<ge> 0
         then set_cell_at ng (js_add (y p) (int (0 + i))) (js_add (x p) (int dx)) ?v h
         else Inr h) (shape p ! i) s = Inr s' \<and> ?I (Suc (0 + i)) s'"
      using merge_row_written [OF rows _ c(3) n, of i ?v h1 s] by (simp cong: if_cong)
  qed
  then obtain h2 where h2: "?loops = Inr h2" "?I (length (shape p)) h2"
    by auto
  have "merge g p h = Inr (ng, h2)"
    using c(1) h2(1) by (simp add: merge_def)
  with n c(3,4,5) h2(2) show ?thesis
    by blast
qed

lemma merge_keys:
  assumes "on_rows B P"
    and "\<forall>a \<ge> next_free h. arrays h a = None" and "board_at h g B"
  shows "\<exists>ng h'. merge g P h = Inr (ng, h') \<and> length ng = length B \<and>
           (\<forall>r < length B. \<exists>arr. arrays h' (ng ! r) = Some arr \<and>
              (\<forall>c. slot arr c = (if covers P r c then Some (js_add (colorIdx P) 1)
                                 else slot (array_of (B ! r)) c)) \<and>
              length (B ! r) \<le> len arr \<and>
              (\<forall>c. covers P r c \<and> 0 \<le> c \<and> c < 4294967295 \<longrightarrow> nat c < len arr) \<and>
              (len arr = length (B ! r) \<or>
               (\<exists>c. covers P r c \<and> 0 \<le> c \<and> c < 4294967295 \<and> len arr = Suc (nat c)))) \<and>
           board_at h' g B \<and> (\<forall>a < next_free h. arrays h' a = arrays h a) \<and>
           set ng \<inter> set g = {} \<and> distinct ng"
proof -
  from merge_written [OF assms(2,3,1)]
  obtain ng h1 h2 where m: "merge g P h = Inr (ng, h2)" "length ng = length B" "distinct ng"
      "\<forall>a \<in> set ng. next_free h \<le> a" "\<forall>a < next_free h. arrays h1 a = arrays h a"
      "written (cellkeys P (length (shape P))) B (js_add (colorIdx P) 1) ng h1 h2"
    by blast
  have cells: "\<forall>r < length B. \<exists>arr. arrays h2 (ng ! r) = Some arr \<and>
              (\<forall>c. slot arr c = (if covers P r c then Some (js_add (colorIdx P) 1)
                                 else slot (array_of (B ! r)) c)) \<and>
              length (B ! r) \<le> len arr \<and>
              (\<forall>c. covers P r c \<and> 0 \<le> c \<and> c < 4294967295 \<longrightarrow> nat c < len arr) \<and>
              (len arr = length (B ! r) \<or>
               (\<exists>c. covers P r c \<and> 0 \<le> c \<and> c < 4294967295 \<and> len arr = Suc (nat c)))"
    using m(6) unfolding written_def cellkeys_covers m(2) by blast
  have old: "arrays h2 a = arrays h a" if "a < next_free h" for a
  proof -
    have "a \<notin> set ng"
      using m(4) that by auto
    then show ?thesis
      using m(5,6) that by (simp add: written_def)
  qed
  have low: "a < next_free h" if "a \<in> set g" for a
    using board_at_allocated [OF assms(2,3) that] .
  have "arrays h2 (g ! i) = arrays h (g ! i)" if "i < length g" for i
    using old [of "g ! i"] low [of "g ! i"] that by simp
  then have same: "board_at h2 g B"
    using assms(3) by (simp add: board_at_def)
  have apart: "set ng \<inter> set g = {}"
  proof (rule ccontr)
    assume "set ng \<inter> set g \<noteq> {}"
    then obtain a where "a \<in> set ng" "a \<in> set g"
      by blast
    then have "next_free h \<le> a" "a < next_free h"
      using m(4) low by auto
    then show False by simp
  qed
  from m(1,2,3) cells same old apart show ?thesis
    by blast
qed

text \<open>
  C2, as far as it holds. For every board and every piece none of whose occupied cells has
  a board row \<open>\<ge> 0\<close> past the last row of the board, \<^verbatim>\<open>merge\<close> returns a board with as many
  rows, whose rows are new arrays, apart from the rows of the board given. In row \<open>r\<close>
  exactly the keys under an occupied cell of the piece hold \<open>colorIdx + 1\<close> and every other
  key yields what it yields in row \<open>r\<close> of the board given; occupied cells with a negative
  row are under no key, so they are written nowhere. A row is as long as it was unless an
  occupied cell lies past its end: then it reaches that cell. Every array that existed
  before the call, the rows of the board given among them, is left as it was. Row, column
  and value are the sums as binary64 computes them.
\<close>

theorem merge_writes_piece_cells:
  assumes "on_rows B P"
    and "\<forall>a \<ge> next_free h. arrays h a = None" and "board_at h g B"
  shows "\<exists>ng h'. merge g P h = Inr (ng, h') \<and> length ng = length B \<and>
           (\<forall>r < length B. \<exists>arr. arrays h' (ng ! r) = Some arr \<and>
              (\<forall>c. slot arr c = (if covers P r c then Some (js_add (colorIdx P) 1)
                                 else slot (array_of (B ! r)) c)) \<and>
              length (B ! r) \<le> len arr \<and>
              (\<forall>c. covers P r c \<and> 0 \<le> c \<and> c < 4294967295 \<longrightarrow> nat c < len arr) \<and>
              (len arr = length (B ! r) \<or>
               (\<exists>c. covers P r c \<and> 0 \<le> c \<and> c < 4294967295 \<and> len arr = Suc (nat c)))) \<and>
           board_at h' g B \<and> (\<forall>a < next_free h. arrays h' a = arrays h a) \<and>
           set ng \<inter> set g = {} \<and> distinct ng"
  using assms by (rule merge_keys)

lemma js_add_small: "\<bar>a + b\<bar> < 2 ^ 53 \<Longrightarrow> js_add a b = a + b"
  by (simp add: js_add_def round64_def)

lemma ex_less_2: "(\<exists>n < 2. Q n) \<longleftrightarrow> Q 0 \<or> Q (Suc 0)"
  by (auto simp: less_2_cases_iff)

lemma colorIdx_O: "colorIdx O_spawn = 0"
  by (simp add: O_spawn_def)

lemma occupied_O_edge: "occupied (O_spawn\<lparr>x := 9, y := - 1\<rparr>) dy dx \<longleftrightarrow> dy < 2 \<and> dx < 2"
  by (auto simp: occupied_def O_spawn_def nth_Cons' less_Suc_eq numeral_2_eq_2)

lemma on_rows_O_edge: "on_rows emptyGrid (O_spawn\<lparr>x := 9, y := - 1\<rparr>)"
  unfolding on_rows_def
  by (auto simp: occupied_O_edge less_2_cases_iff js_add_small)
     (auto simp: emptyGrid_def ROWS_def)

lemma covers_O_edge:
  "covers (O_spawn\<lparr>x := 9, y := - 1\<rparr>) 0 c \<longleftrightarrow> c = 9 \<or> c = 10"
proof -
  have "covers (O_spawn\<lparr>x := 9, y := - 1\<rparr>) 0 c \<longleftrightarrow>
          (\<exists>dy < 2. \<exists>dx < 2. js_add (- 1) (int dy) = 0 \<and> js_add 9 (int dx) = c)"
    unfolding covers_def by (auto simp: occupied_O_edge)
  also have "\<dots> \<longleftrightarrow> c = 9 \<or> c = 10"
    by (auto simp: ex_less_2 js_add_small)
  finally show ?thesis .
qed

lemma empty_board_heap:
  "\<forall>a \<ge> next_free empty_board_heap. arrays empty_board_heap a = None"
  "board_at empty_board_heap [0..<ROWS] emptyGrid"
  by (simp_all add: empty_board_heap_def board_at_def emptyGrid_def)

theorem merge_writes_piece_cells_witness:
  "on_rows emptyGrid (O_spawn\<lparr>x := 9, y := - 1\<rparr>) \<and>
   board_at empty_board_heap [0..<ROWS] emptyGrid \<and>
   (\<exists>ng h'. merge [0..<ROWS] (O_spawn\<lparr>x := 9, y := - 1\<rparr>) empty_board_heap = Inr (ng, h') \<and>
      length ng = ROWS \<and>
      (\<exists>arr. arrays h' (ng ! 0) = Some arr \<and> slot arr 8 = Some 0 \<and> slot arr 9 = Some 1 \<and>
         slot arr 10 = Some 1 \<and> slot arr 11 = None \<and> len arr = 11) \<and>
      board_at h' [0..<ROWS] emptyGrid)"
proof -
  let ?P = "O_spawn\<lparr>x := 9, y := - 1\<rparr>"
  from merge_writes_piece_cells [OF on_rows_O_edge empty_board_heap]
  obtain ng h' where m: "merge [0..<ROWS] ?P empty_board_heap = Inr (ng, h')"
      "length ng = length emptyGrid"
      "\<forall>r < length emptyGrid. \<exists>arr. arrays h' (ng ! r) = Some arr \<and>
              (\<forall>c. slot arr c = (if covers ?P r c then Some (js_add (colorIdx ?P) 1)
                                 else slot (array_of (emptyGrid ! r)) c)) \<and>
              length (emptyGrid ! r) \<le> len arr \<and>
              (\<forall>c. covers ?P r c \<and> 0 \<le> c \<and> c < 4294967295 \<longrightarrow> nat c < len arr) \<and>
              (len arr = length (emptyGrid ! r) \<or>
               (\<exists>c. covers ?P r c \<and> 0 \<le> c \<and> c < 4294967295 \<and> len arr = Suc (nat c)))"
      "board_at h' [0..<ROWS] emptyGrid"
    by blast
  have "0 < length emptyGrid"
    by (simp add: emptyGrid_def ROWS_def)
  with m(3) obtain arr where arr: "arrays h' (ng ! 0) = Some arr"
      "\<And>c. slot arr c = (if covers ?P 0 c then Some (js_add (colorIdx ?P) 1)
                                 else slot (array_of (emptyGrid ! 0)) c)"
      "\<And>c. covers ?P 0 c \<Longrightarrow> 0 \<le> c \<Longrightarrow> c < 4294967295 \<Longrightarrow> nat c < len arr"
      "len arr = length (emptyGrid ! 0) \<or>
               (\<exists>c. covers ?P 0 c \<and> 0 \<le> c \<and> c < 4294967295 \<and> len arr = Suc (nat c))"
    by blast
  have row: "emptyGrid ! 0 = replicate COLS 0"
    by (simp add: emptyGrid_def ROWS_def)
  have "slot arr 8 = Some 0" "slot arr 9 = Some 1" "slot arr 10 = Some 1" "slot arr 11 = None"
    using arr(2) [of 8] arr(2) [of 9] arr(2) [of 10] arr(2) [of 11]
    by (simp_all add: covers_O_edge row array_of_def COLS_def js_add_small colorIdx_O)
  moreover have "len arr = 11"
  proof -
    have "nat 10 < len arr"
      by (rule arr(3)) (simp_all add: covers_O_edge)
    then show ?thesis
      using arr(4) by (auto simp: covers_O_edge row COLS_def)
  qed
  moreover have "length ng = ROWS"
    using m(2) by (simp add: emptyGrid_def)
  ultimately show ?thesis
    using on_rows_O_edge empty_board_heap(2) m(1,4) arr(1) by blast
qed

text \<open>
  C2 as stated, for every board and piece, fails: on the empty board, the O piece at
  \<open>y = 19\<close> has its lower cells on row 20, which the board does not have; the write to
  \<^verbatim>\<open>ng[20][4]\<close> raises and \<^verbatim>\<open>merge\<close> returns no board.
\<close>

theorem merge_below_floor_raises:
  "merge [0..<ROWS] (O_spawn\<lparr>y := 19\<rparr>) empty_board_heap = Inl TypeError"
proof -
  have "case merge [0..<ROWS] (O_spawn\<lparr>y := 19\<rparr>) empty_board_heap of
          Inl e \<Rightarrow> e = TypeError | Inr _ \<Rightarrow> False"
    by code_simp
  then show ?thesis
    by (simp split: sum.splits)
qed

lemma fits_sums:
  assumes fit: "fits B P" and occ: "occupied P dy dx"
    and small: "\<bar>y P\<bar> < 2 ^ 52" and dims: "wf_board B"
  shows "js_add (y P) (int dy) = y P + int dy"
    and "0 \<le> y P + int dy \<Longrightarrow> js_add (x P) (int dx) = x P + int dx"
proof -
  show "js_add (y P) (int dy) = y P + int dy"
  proof (cases "0 \<le> y P + int dy")
    case True
    then have "nat (y P + int dy) < length B"
      using fit occ unfolding fits_def by blast
    then have "y P + int dy < 20"
      using dims True by (simp add: wf_board_def ROWS_def)
    then show ?thesis
      using True by (intro js_add_small) simp
  next
    case False
    then have "\<bar>y P + int dy\<bar> \<le> \<bar>y P\<bar>"
      by linarith
    then show ?thesis
      using small by (intro js_add_small) simp
  qed
  assume pos: "0 \<le> y P + int dy"
  then have r: "nat (y P + int dy) < length B" "0 \<le> x P + int dx"
      "nat (x P + int dx) < length (B ! nat (y P + int dy))"
    using fit occ unfolding fits_def by blast+
  have "length (B ! nat (y P + int dy)) = 10"
    using dims r(1) by (simp add: wf_board_def COLS_def)
  then have "x P + int dx < 10"
    using r(2,3) by linarith
  then show "js_add (x P) (int dx) = x P + int dx"
    using r(2) by (intro js_add_small) simp
qed

lemma fits_covers:
  assumes fit: "fits B P"
    and small: "\<bar>y P\<bar> < 2 ^ 52" and dims: "wf_board B"
  shows "covers P r c \<longleftrightarrow> 0 \<le> c \<and> covered P r (nat c)"
proof
  assume "covers P r c"
  then obtain dy dx where d: "occupied P dy dx" "js_add (y P) (int dy) = int r"
      "js_add (x P) (int dx) = c"
    unfolding covers_def by blast
  have yy: "y P + int dy = int r"
    using fits_sums(1) [OF fit d(1) small dims] d(2) by simp
  then have xx: "x P + int dx = c"
    using fits_sums(2) [OF fit d(1) small dims] d(3) by simp
  have "0 \<le> y P + int dy"
    using yy by simp
  then have "0 \<le> x P + int dx"
    using fit d(1) unfolding fits_def by blast
  then show "0 \<le> c \<and> covered P r (nat c)"
    unfolding covered_def using d(1) yy xx by auto
next
  assume a: "0 \<le> c \<and> covered P r (nat c)"
  then obtain dy dx where d: "occupied P dy dx" "y P + int dy = int r" "x P + int dx = int (nat c)"
    unfolding covered_def by blast
  have "js_add (y P) (int dy) = int r"
    using fits_sums(1) [OF fit d(1) small dims] d(2) by simp
  moreover have "js_add (x P) (int dx) = c"
    using fits_sums(2) [OF fit d(1) small dims] d(2,3) a by simp
  ultimately show "covers P r c"
    unfolding covers_def using d(1) by blast
qed

lemma fits_on_rows:
  assumes fit: "fits B P"
    and small: "\<bar>y P\<bar> < 2 ^ 52" and dims: "wf_board B"
  shows "on_rows B P"
  unfolding on_rows_def
proof (intro allI impI)
  fix dy dx
  assume a: "occupied P dy dx \<and> 0 \<le> js_add (y P) (int dy)"
  then have e: "js_add (y P) (int dy) = y P + int dy"
    using fits_sums(1) [OF fit _ small dims] by blast
  then have "nat (y P + int dy) < length B"
    using fit a unfolding fits_def by auto
  then show "js_add (y P) (int dy) < int (length B)"
    using e by linarith
qed

text \<open>
  Where the piece lies on the board and the numbers are those of a game, \<^verbatim>\<open>merge\<close> returns
  the board that \<open>merge_board\<close> computes: the sessions, which keep their grid as a value,
  lose nothing.
\<close>

lemma merge_board_agrees:
  assumes fit: "fits B P"
    and small: "\<bar>y P\<bar> < 2 ^ 52" "\<bar>colorIdx P\<bar> < 2 ^ 52"
    and dims: "wf_board B"
    and ok: "\<forall>a \<ge> next_free h. arrays h a = None" and g: "board_at h g B"
  shows "\<exists>b ng h'. merge_board B P = Inr b \<and> merge g P h = Inr (ng, h') \<and>
           board_at h' ng b \<and> board_at h' g B"
proof -
  note cov = fits_covers [OF fit small(1) dims]
  from merge_cells [OF fit]
  obtain b where b: "merge_board B P = Inr b" "length b = length B"
      "\<And>r. r < length B \<Longrightarrow> length (b ! r) = length (B ! r)"
      "\<And>r c. r < length B \<Longrightarrow> c < length (B ! r) \<Longrightarrow>
         b ! r ! c = (if covered P r c then colorIdx P + 1 else B ! r ! c)"
    by blast
  from merge_keys [OF fits_on_rows [OF fit small(1) dims] ok g]
  obtain ng h' where m: "merge g P h = Inr (ng, h')" "length ng = length B"
      "\<forall>r < length B. \<exists>arr. arrays h' (ng ! r) = Some arr \<and>
              (\<forall>c. slot arr c = (if covers P r c then Some (js_add (colorIdx P) 1)
                                 else slot (array_of (B ! r)) c)) \<and>
              length (B ! r) \<le> len arr \<and>
              (\<forall>c. covers P r c \<and> 0 \<le> c \<and> c < 4294967295 \<longrightarrow> nat c < len arr) \<and>
              (len arr = length (B ! r) \<or>
               (\<exists>c. covers P r c \<and> 0 \<le> c \<and> c < 4294967295 \<and> len arr = Suc (nat c)))"
      "board_at h' g B"
    by blast
  have v: "js_add (colorIdx P) 1 = colorIdx P + 1"
    using small(2) by (intro js_add_small) simp
  have inside: "c < length (B ! r)" if "covered P r c" for r c
  proof -
    from that obtain dy dx where d: "occupied P dy dx" "y P + int dy = int r" "x P + int dx = int c"
      unfolding covered_def by blast
    have "0 \<le> y P + int dy"
      using d(2) by simp
    then have "nat (x P + int dx) < length (B ! nat (y P + int dy))"
      using fit d(1) unfolding fits_def by blast
    then show ?thesis
      using d by simp
  qed
  have "arrays h' (ng ! r) = Some (array_of (b ! r))" if r: "r < length B" for r
  proof -
    from m(3) r obtain arr where arr: "arrays h' (ng ! r) = Some arr"
        "\<And>c. slot arr c = (if covers P r c then Some (js_add (colorIdx P) 1)
                                 else slot (array_of (B ! r)) c)"
        "length (B ! r) \<le> len arr"
        "len arr = length (B ! r) \<or>
           (\<exists>c. covers P r c \<and> 0 \<le> c \<and> c < 4294967295 \<and> len arr = Suc (nat c))"
      by blast
    have l: "len arr = length (b ! r)"
    proof -
      have "len arr = length (B ! r)"
        using arr(4)
      proof
        assume "\<exists>c. covers P r c \<and> 0 \<le> c \<and> c < 4294967295 \<and> len arr = Suc (nat c)"
        then obtain c where c: "covers P r c" "len arr = Suc (nat c)"
          by blast
        then have "nat c < length (B ! r)"
          using inside [of r "nat c"] cov [of r c] by simp
        then show ?thesis
          using c(2) arr(3) by simp
      qed simp
      then show ?thesis
        using b(3) [OF r] by simp
    qed
    have s: "slot arr c = slot (array_of (b ! r)) c" for c
    proof (cases "0 \<le> c \<and> nat c < length (B ! r)")
      case True
      then have "b ! r ! nat c = (if covered P r (nat c) then colorIdx P + 1 else B ! r ! nat c)"
        using b(4) [OF r, of "nat c"] by simp
      then show ?thesis
        using True arr(2) [of c] cov [of r c] b(3) [OF r] v by (simp add: array_of_def)
    next
      case False
      then have "\<not> covers P r c"
        using inside [of r "nat c"] cov [of r c] by auto
      then show ?thesis
        using False arr(2) [of c] b(3) [OF r] by (auto simp: array_of_def)
    qed
    have "arr = array_of (b ! r)"
      using l s by (cases arr) (auto simp: array_of_def)
    then show ?thesis
      using arr(1) by simp
  qed
  then have "board_at h' ng b"
    using m(2) b(2) by (simp add: board_at_def)
  with b(1) m(1,4) show ?thesis
    by blast
qed

section \<open>Facts about clearing lines\<close>

lemma unshift_empty_eq:
  "unshift_empty kept = replicate (ROWS - length kept) (replicate COLS 0) @ kept"
proof (induction kept rule: unshift_empty.induct)
  case (1 kept)
  show ?case
  proof (cases "length kept < ROWS")
    case True
    then have "ROWS - length kept = Suc (ROWS - Suc (length kept))"
      by simp
    then have "replicate (ROWS - length kept) (replicate COLS (0::int)) =
                 replicate (ROWS - Suc (length kept)) (replicate COLS 0) @ [replicate COLS 0]"
      by (simp add: replicate_append_same)
    with True "1.IH" show ?thesis
      by (subst unshift_empty.simps) simp
  next
    case False
    then show ?thesis
      by (subst unshift_empty.simps) simp
  qed
qed

lemma length_filter_split:
  "length (filter Q xs) + length (filter (\<lambda>v. \<not> Q v) xs) = length xs"
  by (induction xs) auto

lemma list_ex_zero: "list_ex (\<lambda>cell. cell = (0::int)) row \<longleftrightarrow> 0 \<in> set row"
  by (auto simp: list_ex_iff)

lemma clearLines_eq:
  assumes "length B = ROWS"
  shows "clearLines B =
           \<lparr>newGrid = replicate (length (filter (\<lambda>row. 0 \<notin> set row) B)) (replicate COLS 0)
                        @ filter (\<lambda>row. 0 \<in> set row) B,
            cleared = int (length (filter (\<lambda>row. 0 \<notin> set row) B))\<rparr>"
proof -
  let ?k = "length (filter (\<lambda>row. 0 \<notin> set row) B)"
  let ?kept = "filter (\<lambda>row. 0 \<in> set row) B"
  have sum: "length ?kept + ?k = ROWS"
    using length_filter_split [of "\<lambda>row. 0 \<in> set row" B] assms by simp
  then have a: "ROWS - length ?kept = ?k"
    by linarith
  from sum have b: "int ROWS - int (length ?kept) = int ?k"
    by linarith
  show ?thesis
    by (simp add: clearLines_def Let_def unshift_empty_eq list_ex_zero a b)
qed

text \<open>
  C3. On a board of \<open>ROWS\<close> rows of \<open>COLS\<close> cells, \<^verbatim>\<open>clearLines\<close> drops exactly the rows without
  an empty cell, keeps the others in their order, puts as many empty rows on top as it
  dropped, so that the result has \<open>ROWS\<close> rows again, and reports the number of dropped rows.
  When no row is full it returns the board itself and 0.
\<close>

theorem clearLines_removes_full_rows:
  assumes "wf_board B"
  shows "newGrid (clearLines B) =
           replicate (length (filter (\<lambda>row. 0 \<notin> set row) B)) (replicate COLS 0)
             @ filter (\<lambda>row. 0 \<in> set row) B
       \<and> cleared (clearLines B) = int (length (filter (\<lambda>row. 0 \<notin> set row) B))
       \<and> length (newGrid (clearLines B)) = ROWS
       \<and> wf_board (newGrid (clearLines B))
       \<and> ((\<forall>row \<in> set B. 0 \<in> set row) \<longrightarrow> clearLines B = \<lparr>newGrid = B, cleared = 0\<rparr>)"
proof -
  let ?k = "length (filter (\<lambda>row. 0 \<notin> set row) B)"
  let ?kept = "filter (\<lambda>row. 0 \<in> set row) B"
  have len: "length B = ROWS"
    using assms by (simp add: wf_board_def)
  have eq: "clearLines B = \<lparr>newGrid = replicate ?k (replicate COLS 0) @ ?kept, cleared = int ?k\<rparr>"
    by (rule clearLines_eq [OF len])
  have grid: "newGrid (clearLines B) = replicate ?k (replicate COLS 0) @ ?kept"
    by (simp only: eq cleared_lines.simps)
  have count: "cleared (clearLines B) = int ?k"
    by (simp only: eq cleared_lines.simps)
  have sum: "length ?kept + ?k = ROWS"
    using length_filter_split [of "\<lambda>row. 0 \<in> set row" B] len by simp
  have rows: "length (newGrid (clearLines B)) = ROWS"
    unfolding grid using sum by simp
  have "length row = COLS" if "row \<in> set (replicate ?k (replicate COLS 0) @ ?kept)" for row
    using that assms by (auto simp: wf_board_def)
  then have wf: "wf_board (newGrid (clearLines B))"
    unfolding wf_board_def using rows by (simp only: grid) blast
  have none: "clearLines B = \<lparr>newGrid = B, cleared = 0\<rparr>" if "\<forall>row \<in> set B. 0 \<in> set row"
  proof -
    have "?kept = B" "filter (\<lambda>row. 0 \<notin> set row) B = []"
      using that by (simp_all add: filter_empty_conv)
    then show ?thesis
      unfolding eq by simp
  qed
  from grid count rows wf none show ?thesis
    by blast
qed

theorem clearLines_removes_full_rows_witness:
  "wf_board (replicate 18 (replicate COLS 0) @ [replicate COLS 3, replicate COLS 0]) \<and>
   clearLines (replicate 18 (replicate COLS 0) @ [replicate COLS 3, replicate COLS 0]) =
     \<lparr>newGrid = emptyGrid, cleared = 1\<rparr>"
proof -
  let ?B = "replicate 18 (replicate COLS 0) @ [replicate COLS 3, replicate COLS (0::int)]"
  have h: "wf_board ?B"
    by (simp add: wf_board_def ROWS_def)
  have z: "0 \<in> set (replicate COLS (0::int))" "0 \<notin> set (replicate COLS (3::int))"
    by (simp_all add: COLS_def)
  have r: "replicate 20 v = v # v # replicate 18 v" for v :: "int list"
    by (simp add: eval_nat_numeral)
  have "newGrid (clearLines ?B) = emptyGrid" "cleared (clearLines ?B) = 1"
    using clearLines_removes_full_rows [OF h] z
    by (simp_all add: emptyGrid_def ROWS_def replicate_append_same r)
  then have "clearLines ?B = \<lparr>newGrid = emptyGrid, cleared = 1\<rparr>"
    by (cases "clearLines ?B") simp
  with h show ?thesis by simp
qed

section \<open>Facts about rotation\<close>

lemma for_range_inv:
  assumes "I i s" "i \<le> n"
    and "\<And>k s. i \<le> k \<Longrightarrow> k < n \<Longrightarrow> I k s \<Longrightarrow> \<exists>s'. body k s = Inr s' \<and> I (Suc k) s'"
  shows "\<exists>s'. for_range i n body s = Inr s' \<and> I n s'"
  using assms
proof (induction i n body s rule: for_range.induct)
  case (1 i n body s)
  show ?case
  proof (cases "i < n")
    case True
    from "1.prems"(3) [of i s] True "1.prems"(1)
    obtain s1 where s1: "body i s = Inr s1" "I (Suc i) s1"
      by auto
    have "\<exists>s'. for_range (Suc i) n body s1 = Inr s' \<and> I n s'"
    proof (rule "1.IH" [OF True s1(1) s1(2)])
      show "Suc i \<le> n" using True by simp
    next
      fix k s assume "Suc i \<le> k" "k < n" "I k s"
      then show "\<exists>s'. body k s = Inr s' \<and> I (Suc k) s'"
        using "1.prems"(3) [of k s] by simp
    qed
    then show ?thesis
      using True s1 by (subst for_range.simps) simp
  next
    case False
    then have "i = n" using "1.prems"(2) by simp
    then show ?thesis
      using "1.prems"(1) by (subst for_range.simps) simp
  qed
qed

lemma map_from_Inr:
  assumes "\<And>i. i < length vs \<Longrightarrow> f (k + i) (vs ! i) = Inr (h (k + i) (vs ! i))"
  shows "map_from k f vs = Inr (map (\<lambda>i. h (k + i) (vs ! i)) [0..<length vs])"
  using assms
proof (induction vs arbitrary: k)
  case Nil
  then show ?case by simp
next
  case (Cons v vs)
  have hd: "f k v = Inr (h k v)"
    using Cons.prems [of 0] by simp
  have tl: "map_from (Suc k) f vs = Inr (map (\<lambda>i. h (Suc k + i) (vs ! i)) [0..<length vs])"
  proof (rule Cons.IH)
    fix i assume "i < length vs"
    then show "f (Suc k + i) (vs ! i) = Inr (h (Suc k + i) (vs ! i))"
      using Cons.prems [of "Suc i"] by simp
  qed
  have "map (\<lambda>i. h (k + i) ((v # vs) ! i)) [0..<length (v # vs)] =
          h k v # map (\<lambda>i. h (Suc k + i) (vs ! i)) [0..<length vs]"
    by (simp add: map_upt_Suc del: upt_Suc)
  then show ?case
    by (simp add: hd tl del: upt_Suc)
qed


lemma rev_column:
  assumes "m \<noteq> []"
  shows "rev (map (\<lambda>r. r ! j) m) = map (\<lambda>k. m ! (length m - 1 - k) ! j) [0..<length m]"
  by (rule nth_equalityI) (simp_all add: rev_nth)

lemma rotate_solo_eq:
  assumes "m \<noteq> []" and rect: "\<forall>r \<in> set m. length r = C"
  shows "rotate_solo m = Inr (quarter_turn m C)"
proof -
  obtain r0 rs where m: "m = r0 # rs"
    using assms(1) by (cases m) auto
  have r0: "length r0 = C"
    using rect m by simp
  have col: "map_from 0 (\<lambda>_ r. if length r \<le> i then Inl Undefined_value else Inr (r ! i)) m
               = Inr (map (\<lambda>r. r ! i) m)" if "i < C" for i
  proof -
    have "map_from 0 (\<lambda>_ r. if length r \<le> i then Inl Undefined_value else Inr (r ! i)) m
            = Inr (map (\<lambda>k. (\<lambda>_ r. r ! i) (0 + k) (m ! k)) [0..<length m])"
      by (rule map_from_Inr) (use that rect in auto)
    also have "map (\<lambda>k. m ! k ! i) [0..<length m] = map (\<lambda>r. r ! i) m"
      by (rule nth_equalityI) simp_all
    finally show ?thesis by simp
  qed
  have "map_from 0 (\<lambda>i _.
            case map_from 0 (\<lambda>_ r. if length r \<le> i then Inl Undefined_value else Inr (r ! i)) m of
              Inl e \<Rightarrow> Inl e
            | Inr column \<Rightarrow> Inr (rev column)) r0
        = Inr (map (\<lambda>i. (\<lambda>j _. map (\<lambda>k. m ! (length m - 1 - k) ! j) [0..<length m]) (0 + i) (r0 ! i))
                 [0..<length r0])"
  proof (rule map_from_Inr)
    fix i assume "i < length r0"
    then have "i < C" using r0 by simp
    then show "(case map_from 0 (\<lambda>_ r. if length r \<le> 0 + i then Inl Undefined_value
                                        else Inr (r ! (0 + i))) m of
                  Inl e \<Rightarrow> Inl e
                | Inr column \<Rightarrow> Inr (rev column))
               = Inr (map (\<lambda>k. m ! (length m - 1 - k) ! (0 + i)) [0..<length m])"
      using col [of i] rev_column [OF assms(1), of i] by (simp cong: if_cong)
  qed
  then show ?thesis
    by (simp add: rotate_solo_def m quarter_turn_def r0)
qed

lemma turned_next_row: "turned m C i C rot \<Longrightarrow> turned m C (Suc i) 0 rot"
  unfolding turned_def by (auto simp: less_Suc_eq)

lemma turned_step:
  assumes t: "turned m C i j rot" and i: "i < length m" and j: "j < C"
  shows "turned m C i (Suc j) (rot[j := (rot ! j)[length m - 1 - i := m ! i ! j]])"
proof -
  let ?R = "length m"
  let ?rot = "rot[j := (rot ! j)[?R - 1 - i := m ! i ! j]]"
  have len: "length rot = C" and rows: "\<And>r. r \<in> set rot \<Longrightarrow> length r = ?R"
    using t by (auto simp: turned_def)
  have lj: "length (rot ! j) = ?R"
    using rows len j by simp
  have "length ?rot = C"
    using len by simp
  moreover have "\<forall>r \<in> set ?rot. length r = ?R"
  proof
    fix r assume "r \<in> set ?rot"
    then have "r = (rot ! j)[?R - 1 - i := m ! i ! j] \<or> r \<in> set rot"
      using set_update_subset_insert [of rot j] by auto
    then show "length r = ?R"
      using lj rows by auto
  qed
  moreover have "?rot ! j' ! (?R - 1 - i') = m ! i' ! j'"
    if c: "(i' < i \<and> j' < C) \<or> (i' = i \<and> j' < Suc j)" for i' j'
  proof (cases "j' = j")
    case True
    show ?thesis
    proof (cases "i' = i")
      case True
      with \<open>j' = j\<close> show ?thesis
        using len j lj i by simp
    next
      case False
      with c have lt: "i' < i" by auto
      then have ne: "?R - 1 - i' \<noteq> ?R - 1 - i"
        using i by linarith
      have "rot ! j ! (?R - 1 - i') = m ! i' ! j"
        using t lt j unfolding turned_def by blast
      then show ?thesis
        using True len j ne by simp
    qed
  next
    case False
    then have same: "?rot ! j' = rot ! j'"
      by simp
    have "(i' < i \<and> j' < C) \<or> (i' = i \<and> j' < j)"
      using c False by auto
    then have "rot ! j' ! (?R - 1 - i') = m ! i' ! j'"
      using t unfolding turned_def by blast
    then show ?thesis
      by (simp only: same)
  qed
  ultimately show ?thesis
    unfolding turned_def by blast
qed

lemma rotate_nonempty:
  assumes "m \<noteq> []"
  shows "rotate m =
     for_range 0 (length m) (\<lambda>i rotated.
       for_range 0 (length (hd m)) (\<lambda>j rotated.
         case shape_cell m i j of
           Inl e \<Rightarrow> Inl e
         | Inr v \<Rightarrow> set_cell rotated (int j) (int (length m) - 1 - int i) v) rotated)
       (replicate (length (hd m)) (replicate (length m) 0))"
proof (cases m)
  case Nil
  with assms show ?thesis by simp
next
  case (Cons r0 rs)
  show ?thesis
    unfolding Cons rotate_def by (simp only: list.case Let_def list.sel)
qed

lemma rotate_turned:
  assumes "m \<noteq> []" and rect: "\<forall>r \<in> set m. length r = C"
  shows "\<exists>rot. rotate m = Inr rot \<and> turned m C (length m) 0 rot"
proof -
  let ?R = "length m"
  have r0: "length (hd m) = C"
    using rect assms(1) by simp
  let ?inner = "\<lambda>i rotated. for_range 0 C (\<lambda>j rotated.
              case shape_cell m i j of
                Inl e \<Rightarrow> Inl e
              | Inr v \<Rightarrow> set_cell rotated (int j) (int ?R - 1 - int i) v) rotated"
  have inner: "\<exists>s'. ?inner i s = Inr s' \<and> turned m C (Suc i) 0 s'"
    if i: "i < ?R" and s: "turned m C i 0 s" for i s
  proof -
    have "\<exists>s'. ?inner i s = Inr s' \<and> turned m C i C s'"
    proof (rule for_range_inv [where I = "\<lambda>j. turned m C i j"])
      show "turned m C i 0 s" by (rule s)
      show "0 \<le> C" by simp
    next
      fix j rot
      assume j: "j < C" and t: "turned m C i j rot"
      have cell: "shape_cell m i j = Inr (m ! i ! j)"
        using i j rect by (simp add: shape_cell_def)
      have len: "length rot = C" "length (rot ! j) = ?R"
        using t j by (auto simp: turned_def)
      have idx: "nat (int ?R - 1 - int i) = ?R - 1 - i" "0 \<le> int ?R - 1 - int i"
        using i by linarith+
      have "set_cell rot (int j) (int ?R - 1 - int i) (m ! i ! j)
              = Inr (rot[j := (rot ! j)[?R - 1 - i := m ! i ! j]])"
        using len j i idx by (simp add: set_cell_def)
      then show "\<exists>s'. (case shape_cell m i j of
                Inl e \<Rightarrow> Inl e
              | Inr v \<Rightarrow> set_cell rot (int j) (int ?R - 1 - int i) v) = Inr s'
            \<and> turned m C i (Suc j) s'"
        using cell turned_step [OF t i j] by simp
    qed
    then show ?thesis
      using turned_next_row by blast
  qed
  have "\<exists>rot. for_range 0 ?R ?inner (replicate C (replicate ?R 0)) = Inr rot
          \<and> turned m C ?R 0 rot"
  proof (rule for_range_inv [where I = "\<lambda>i. turned m C i 0"])
    show "turned m C 0 0 (replicate C (replicate ?R 0))"
      by (simp add: turned_def)
    show "0 \<le> ?R" by simp
  next
    fix i s assume "i < ?R" "turned m C i 0 s"
    then show "\<exists>s'. ?inner i s = Inr s' \<and> turned m C (Suc i) 0 s'"
      by (rule inner)
  qed
  then show ?thesis
    by (simp only: rotate_nonempty [OF assms(1)] r0)
qed

lemma turned_quarter_turn:
  assumes "turned m C (length m) 0 rot"
  shows "rot = quarter_turn m C"
proof (rule nth_equalityI)
  show "length rot = length (quarter_turn m C)"
    using assms by (simp add: turned_def quarter_turn_def)
next
  fix j assume "j < length rot"
  then have j: "j < C" using assms by (simp add: turned_def)
  have lj: "length (rot ! j) = length m"
    using assms j by (simp add: turned_def)
  show "rot ! j = quarter_turn m C ! j"
  proof (rule nth_equalityI)
    show "length (rot ! j) = length (quarter_turn m C ! j)"
      using lj j by (simp add: quarter_turn_def)
  next
    fix k assume "k < length (rot ! j)"
    then have k: "k < length m" using lj by simp
    then have "length m - 1 - (length m - 1 - k) = k" "length m - 1 - k < length m"
      by linarith+
    then have "rot ! j ! k = m ! (length m - 1 - k) ! j"
      using assms j unfolding turned_def by metis
    then show "rot ! j ! k = quarter_turn m C ! j ! k"
      using j k by (simp add: quarter_turn_def)
  qed
qed

lemma rotate_eq:
  assumes "m \<noteq> []" "\<forall>r \<in> set m. length r = C"
  shows "rotate m = Inr (quarter_turn m C)"
  using rotate_turned [OF assms] turned_quarter_turn by blast


lemma quarter_turn_nth:
  assumes "i < length m" "j < C"
  shows "quarter_turn m C ! j ! (length m - 1 - i) = m ! i ! j"
proof -
  have "length m - 1 - (length m - 1 - i) = i" "length m - 1 - i < length m"
    using assms by linarith+
  then show ?thesis
    using assms by (simp add: quarter_turn_def)
qed

text \<open>
  C4. For a matrix with \<open>R \<ge> 1\<close> rows of \<open>C\<close> cells each, both implementations of
  \<^verbatim>\<open>rotate\<close> return, without raising, the same matrix of \<open>C\<close> rows of \<open>R\<close> cells, and
  \<open>rotated[j][R-1-i] = shape[i][j]\<close> for all \<open>i < R\<close> and \<open>j < C\<close>.
\<close>

theorem rotate_clockwise:
  assumes "m \<noteq> []" and "\<forall>r \<in> set m. length r = C"
  shows "\<exists>rot. rotate m = Inr rot \<and> rotate_solo m = Inr rot \<and>
           length rot = C \<and> (\<forall>j < C. length (rot ! j) = length m) \<and>
           (\<forall>i < length m. \<forall>j < C. rot ! j ! (length m - 1 - i) = m ! i ! j)"
proof (intro exI conjI)
  show "rotate m = Inr (quarter_turn m C)"
    by (rule rotate_eq [OF assms])
  show "rotate_solo m = Inr (quarter_turn m C)"
    by (rule rotate_solo_eq [OF assms])
  show "length (quarter_turn m C) = C"
    by (simp add: quarter_turn_def)
  show "\<forall>j < C. length (quarter_turn m C ! j) = length m"
    by (simp add: quarter_turn_def)
  show "\<forall>i < length m. \<forall>j < C. quarter_turn m C ! j ! (length m - 1 - i) = m ! i ! j"
    using quarter_turn_nth by blast
qed

theorem rotate_clockwise_witness:
  "[[0,1,0],[1,1,1]] \<noteq> ([] :: shape) \<and>
   (\<exists>rot. rotate [[0,1,0],[1,1,1]] = Inr rot \<and> rotate_solo [[0,1,0],[1,1,1]] = Inr rot \<and>
      length rot = 3 \<and> length (rot ! 0) = 2 \<and>
      rot ! 0 ! 1 = 0 \<and> rot ! 1 ! 1 = 1 \<and> rot ! 2 ! 1 = 0 \<and>
      rot ! 0 ! 0 = 1 \<and> rot ! 1 ! 0 = 1 \<and> rot ! 2 ! 0 = 1)"
proof -
  let ?T = "[[0,1,0],[1,1,1]] :: shape"
  have ne: "?T \<noteq> []" by simp
  have rect: "\<forall>r \<in> set ?T. length r = 3" by simp
  from rotate_clockwise [OF ne rect]
  obtain rot where rot: "rotate ?T = Inr rot" "rotate_solo ?T = Inr rot" "length rot = 3"
      "\<And>j. j < 3 \<Longrightarrow> length (rot ! j) = length ?T"
      "\<And>i j. i < length ?T \<Longrightarrow> j < 3 \<Longrightarrow> rot ! j ! (length ?T - 1 - i) = ?T ! i ! j"
    by blast
  have "rot ! 0 ! 1 = 0" "rot ! 1 ! 1 = 1" "rot ! 2 ! 1 = 0"
       "rot ! 0 ! 0 = 1" "rot ! 1 ! 0 = 1" "rot ! 2 ! 0 = 1"
    using rot(5) [of 0 0] rot(5) [of 0 1] rot(5) [of 0 2]
          rot(5) [of 1 0] rot(5) [of 1 1] rot(5) [of 1 2]
    by simp_all
  moreover have "length (rot ! 0) = 2"
    using rot(4) [of 0] by simp
  ultimately show ?thesis
    using rot(1,2,3) by auto
qed

section \<open>Facts about the descent loop\<close>





lemma collides_solo_eq: "collides_solo g p = collides g p"
  by (simp add: collides_def collides_solo_def Let_def disj_commute disj_left_commute cong: if_cong)






lemma fields_O: "x (O_spawn\<lparr>y := m\<rparr>) = 4" "y (O_spawn\<lparr>y := m\<rparr>) = m"
  by (simp_all add: O_spawn_def)

lemma hits_O_empty: "hits emptyGrid (O_spawn\<lparr>y := m\<rparr>) \<longleftrightarrow> 19 \<le> m"
proof -
  have cell: "emptyGrid ! nat r ! c = 0" if "r < 20" "c < 10" for r c
    using that emptyGrid_nth [of "nat r" c] by (simp add: ROWS_def COLS_def)
  have "hits emptyGrid (O_spawn\<lparr>y := m\<rparr>) \<longleftrightarrow>
          (\<exists>dy dx. (dy < 2 \<and> dx < 2) \<and> (4 + int dx < 0 \<or> 10 \<le> 4 + int dx \<or> 20 \<le> m + int dy \<or>
             (0 \<le> m + int dy \<and> nat (4 + int dx) < length (emptyGrid ! nat (m + int dy)) \<and>
              emptyGrid ! nat (m + int dy) ! nat (4 + int dx) \<noteq> 0)))"
    unfolding hits_def occupied_O fields_O by (simp only: ROWS_def COLS_def of_nat_numeral)
  also have "\<dots> \<longleftrightarrow> (\<exists>dy < (2::nat). 20 \<le> m + int dy)"
  proof -
    have "(4 + int dx < 0 \<or> 10 \<le> 4 + int dx \<or> 20 \<le> m + int dy \<or>
             (0 \<le> m + int dy \<and> nat (4 + int dx) < length (emptyGrid ! nat (m + int dy)) \<and>
              emptyGrid ! nat (m + int dy) ! nat (4 + int dx) \<noteq> 0)) \<longleftrightarrow> 20 \<le> m + int dy"
      if "dx < 2" for dy dx
    proof (cases "20 \<le> m + int dy")
      case True
      then show ?thesis by simp
    next
      case False
      then have "emptyGrid ! nat (m + int dy) ! nat (4 + int dx) = 0"
        using cell [of "m + int dy" "nat (4 + int dx)"] that by simp
      then show ?thesis
        using False that by simp
    qed
    then have "(\<exists>dy dx. (dy < 2 \<and> dx < 2) \<and> (4 + int dx < 0 \<or> 10 \<le> 4 + int dx \<or> 20 \<le> m + int dy \<or>
             (0 \<le> m + int dy \<and> nat (4 + int dx) < length (emptyGrid ! nat (m + int dy)) \<and>
              emptyGrid ! nat (m + int dy) ! nat (4 + int dx) \<noteq> 0)))
          \<longleftrightarrow> (\<exists>dy dx. (dy < 2 \<and> dx < (2::nat)) \<and> 20 \<le> m + int dy)"
      by (intro ex_cong1) (metis (no_types))
    also have "\<dots> \<longleftrightarrow> (\<exists>dy < (2::nat). 20 \<le> m + int dy)"
      by (metis zero_less_numeral)
    finally show ?thesis .
  qed
  also have "\<dots> \<longleftrightarrow> 19 \<le> m"
    by (auto simp: less_2_cases_iff)
  finally show ?thesis .
qed

lemma collides_O_empty:
  "collides emptyGrid (O_spawn\<lparr>y := m\<rparr>) = Inr (19 \<le> m)"
  "collides_solo emptyGrid (O_spawn\<lparr>y := m\<rparr>) = Inr (19 \<le> m)"
proof -
  have "ROWS \<le> length emptyGrid"
    by (simp add: emptyGrid_def)
  then show "collides emptyGrid (O_spawn\<lparr>y := m\<rparr>) = Inr (19 \<le> m)"
    by (simp add: collides_hits hits_O_empty)
  then show "collides_solo emptyGrid (O_spawn\<lparr>y := m\<rparr>) = Inr (19 \<le> m)"
    by (simp add: collides_solo_eq)
qed

lemma y_O_spawn: "y O_spawn = 0" "O_spawn\<lparr>y := 0\<rparr> = O_spawn"
  by (simp_all add: O_spawn_def)



section \<open>The score table\<close>

lemma round64_exact: "\<bar>n\<bar> \<le> 2 ^ 53 \<Longrightarrow> round64 n = n"
proof (cases "\<bar>n\<bar> < 2 ^ 53")
  case True
  then show ?thesis by (simp add: round64_def)
next
  case False
  assume "\<bar>n\<bar> \<le> 2 ^ 53"
  with False have "n = 2 ^ 53 \<or> n = - (2 ^ 53)" by linarith
  moreover have "round64 (2 ^ 53) = 2 ^ 53" by code_simp
  moreover have "round64 (- (2 ^ 53)) = - (2 ^ 53)" by code_simp
  ultimately show ?thesis by auto
qed

lemma round64_0: "round64 0 = 0"
  by (simp add: round64_def)

lemma js_times_exact:
  assumes "0 < b" "0 \<le> lvl" "b * (lvl + 1) \<le> 2 ^ 53"
  shows "js_times b (js_add lvl 1) = b * (lvl + 1)"
proof -
  have "lvl + 1 \<le> b * (lvl + 1)"
    using assms(1,2) by (simp add: mult_le_cancel_right1)
  then have "\<bar>lvl + 1\<bar> \<le> 2 ^ 53"
    using assms by linarith
  then have "js_add lvl 1 = lvl + 1"
    unfolding js_add_def by (rule round64_exact)
  moreover have "\<bar>b * (lvl + 1)\<bar> \<le> 2 ^ 53"
    using assms by (simp add: abs_mult)
  ultimately show ?thesis
    unfolding js_times_def by (simp add: round64_exact)
qed

text \<open>
  C7, as far as it holds. At every level \<open>\<ge> 0\<close>, \<^verbatim>\<open>calculateScore\<close> gives 100, 300, 500 and
  800 times \<open>level + 1\<close> for one to four lines whenever that product is at most \<open>2 ^ 53\<close>
  (for four lines: at every level up to 11258999068425), and 0 for any other number of
  lines; four lines at level 0 give 800. At every level below \<open>2 ^ 53\<close> the points are that
  product rounded to the nearest binary64 number.
\<close>

theorem calculateScore_table:
  assumes "0 \<le> lvl"
  shows "(100 * (lvl + 1) \<le> 2 ^ 53 \<longrightarrow> calculateScore 1 lvl = 100 * (lvl + 1)) \<and>
         (300 * (lvl + 1) \<le> 2 ^ 53 \<longrightarrow> calculateScore 2 lvl = 300 * (lvl + 1)) \<and>
         (500 * (lvl + 1) \<le> 2 ^ 53 \<longrightarrow> calculateScore 3 lvl = 500 * (lvl + 1)) \<and>
         (800 * (lvl + 1) \<le> 2 ^ 53 \<longrightarrow> calculateScore 4 lvl = 800 * (lvl + 1)) \<and>
         (n < 1 \<or> 4 < n \<longrightarrow> calculateScore n lvl = 0) \<and>
         calculateScore 4 0 = 800 \<and>
         (lvl < 2 ^ 53 \<longrightarrow>
            calculateScore 1 lvl = round64 (100 * (lvl + 1)) \<and>
            calculateScore 2 lvl = round64 (300 * (lvl + 1)) \<and>
            calculateScore 3 lvl = round64 (500 * (lvl + 1)) \<and>
            calculateScore 4 lvl = round64 (800 * (lvl + 1)))"
proof -
  have t: "calculateScore 1 lvl = js_times 100 (js_add lvl 1)"
    "calculateScore 2 lvl = js_times 300 (js_add lvl 1)"
    "calculateScore 3 lvl = js_times 500 (js_add lvl 1)"
    "calculateScore 4 lvl = js_times 800 (js_add lvl 1)"
    by (simp_all add: calculateScore_def)
  have exact: "b * (lvl + 1) \<le> 2 ^ 53 \<longrightarrow> js_times b (js_add lvl 1) = b * (lvl + 1)"
    if "0 < b" for b
    using js_times_exact [OF that assms] by blast
  have z: "n < 1 \<or> 4 < n \<longrightarrow> calculateScore n lvl = 0"
    by (auto simp: calculateScore_def js_times_def round64_0)
  have e: "calculateScore 4 0 = 800"
    by (simp add: calculateScore_def js_times_exact)
  have r: "js_times b (js_add lvl 1) = round64 (b * (lvl + 1))" if "lvl < 2 ^ 53" for b
  proof -
    have "\<bar>lvl + 1\<bar> \<le> 2 ^ 53"
      using that assms by simp
    then have "js_add lvl 1 = lvl + 1"
      unfolding js_add_def by (rule round64_exact)
    then show ?thesis
      by (simp only: js_times_def)
  qed
  show ?thesis
    unfolding t using exact [of 100] exact [of 300] exact [of 500] exact [of 800] z e r
    by (simp only: t) simp
qed

theorem calculateScore_table_witness:
  "calculateScore 1 2 = 300 \<and> calculateScore 2 2 = 900 \<and> calculateScore 3 2 = 1500 \<and>
   calculateScore 4 2 = 2400 \<and> calculateScore 5 2 = 0 \<and> calculateScore 4 0 = 800"
  using calculateScore_table [of 2 5] by simp

text \<open>
  C7 as stated, for every level, fails: at level \<open>10 ^ 15\<close> four lines are worth
  800000000000000768 points, which is not \<open>800 * (level + 1) = 800000000000000800\<close>: the
  product lies between two binary64 numbers that are 128 apart.
\<close>

theorem calculateScore_rounds:
  "calculateScore 4 1000000000000000 = 800000000000000768 \<and>
   800 * (1000000000000000 + 1) = (800000000000000800 :: int)"
  by code_simp

section \<open>Facts about the bag\<close>

lemma shuffle_down_mset:
  "k < length bag \<Longrightarrow>
     mset (shuffle_down k rnd bag) = mset bag \<and> length (shuffle_down k rnd bag) = length bag"
proof (induction k arbitrary: bag)
  case 0
  then show ?case by simp
next
  case (Suc k)
  let ?j = "rand (rnd (Suc k)) (Suc k + 1)"
  let ?bag = "bag[Suc k := bag ! ?j, ?j := bag ! Suc k]"
  have j: "?j < length bag"
    using Suc.prems by (simp add: rand_def) (meson less_Suc_eq_le mod_less_divisor order_le_less_trans zero_less_Suc less_imp_le)
  have "mset ?bag = mset bag"
    using mset_swap [of ?j bag "Suc k"] j Suc.prems by simp
  moreover have "length ?bag = length bag"
    by simp
  moreover have "k < length ?bag"
    using Suc.prems by simp
  ultimately show ?case
    using Suc.IH [of ?bag] by (simp add: Let_def)
qed

lemma refillBag_mset:
  "mset (refillBag rnd) = mset [0,1,2,3,4,5,6]" "length (refillBag rnd) = 7"
proof -
  have len: "length [0,1,2,3,4,5,6::int] - 1 = 6"
    by simp
  have eq: "refillBag rnd = shuffle_down 6 rnd [0,1,2,3,4,5,6]"
    unfolding refillBag_def Let_def len ..
  have "6 < length [0,1,2,3,4,5,6::int]"
    by simp
  from shuffle_down_mset [OF this, of rnd]
  show "mset (refillBag rnd) = mset [0,1,2,3,4,5,6]" "length (refillBag rnd) = 7"
    unfolding eq by simp_all
qed

lemma refillBag_set: "set (refillBag rnd) = {0..6}" "distinct (refillBag rnd)"
proof -
  have "set (refillBag rnd) = set [0,1,2,3,4,5,6::int]"
    using refillBag_mset(1) [of rnd] by (metis set_mset_mset)
  also have "\<dots> = {0..6}"
    by auto
  finally show "set (refillBag rnd) = {0..6}" .
  have "distinct [0,1,2,3,4,5,6::int]"
    by simp
  then show "distinct (refillBag rnd)"
    using refillBag_mset(1) [of rnd] by (metis mset_eq_imp_distinct_iff)
qed

lemma spawn_colorIdx:
  assumes "0 \<le> c" "c \<le> 6"
  shows "\<exists>p. spawn c = Inr p \<and> colorIdx p = c \<and> y p = 0 \<and> shape p = SHAPES ! nat c"
proof -
  have "nat c \<in> {0, 1, 2, 3, 4, 5, 6}"
    using assms by auto
  then have "SHAPES ! nat c \<noteq> []"
    by (auto simp: SHAPES_def)
  then obtain r0 rs where "SHAPES ! nat c = r0 # rs"
    by (cases "SHAPES ! nat c") auto
  moreover have "\<not> (c < 0 \<or> length SHAPES \<le> nat c)"
    using assms by (simp add: SHAPES_def)
  ultimately show ?thesis
    by (simp add: spawn_def)
qed

lemma PieceBag_next_pop:
  assumes "bag \<noteq> []" "set bag \<subseteq> {0..6}"
  shows "\<exists>p. PieceBag_next rnd bag = Inr (p, butlast bag) \<and> colorIdx p = last bag"
proof -
  have "last bag \<in> {0..6}"
    using assms last_in_set by blast
  then obtain p where "spawn (last bag) = Inr p" "colorIdx p = last bag"
    using spawn_colorIdx [of "last bag"] by auto
  then show ?thesis
    using assms(1) by (simp add: PieceBag_next_def)
qed

lemma PieceBag_next_refill:
  "PieceBag_next rnd [] = PieceBag_next rnd' (refillBag rnd)"
proof -
  have "refillBag rnd \<noteq> []"
    using refillBag_mset(2) [of rnd] by auto
  then show ?thesis
    by (simp add: PieceBag_next_def)
qed

lemma draws_pop:
  assumes "length rnds = length bag" "set bag \<subseteq> {0..6}"
  shows "\<exists>ps. draws rnds bag = Inr (ps, []) \<and> map colorIdx ps = rev bag"
  using assms
proof (induction rnds arbitrary: bag)
  case Nil
  then show ?case by simp
next
  case (Cons rnd rnds)
  then have ne: "bag \<noteq> []"
    by auto
  from PieceBag_next_pop [OF ne Cons.prems(2)]
  obtain p where p: "PieceBag_next rnd bag = Inr (p, butlast bag)" "colorIdx p = last bag"
    by blast
  have "length rnds = length (butlast bag)"
    using Cons.prems(1) by simp
  moreover have "set (butlast bag) \<subseteq> {0..6}"
    using Cons.prems(2) in_set_butlastD by fastforce
  ultimately obtain ps where ps: "draws rnds (butlast bag) = Inr (ps, [])"
      "map colorIdx ps = rev (butlast bag)"
    using Cons.IH by blast
  have "rev (butlast bag @ [last bag]) = last bag # rev (butlast bag)"
    by simp
  then have r: "rev bag = last bag # rev (butlast bag)"
    by (simp only: append_butlast_last_id [OF ne])
  have "draws (rnd # rnds) bag = Inr (p # ps, [])"
    using p(1) ps(1) by simp
  moreover have "map colorIdx (p # ps) = rev bag"
    unfolding r using p(2) ps(2) by simp
  ultimately show ?case
    by blast
qed

lemma draws_cycle:
  assumes "length rnds = 7"
  shows "\<exists>ps. draws rnds (refillBag rnd) = Inr (ps, []) \<and>
              mset (map colorIdx ps) = mset [0,1,2,3,4,5,6]"
proof -
  have "length rnds = length (refillBag rnd)"
    using assms refillBag_mset(2) by simp
  moreover have "set (refillBag rnd) \<subseteq> {0..6}"
    using refillBag_set(1) by simp
  ultimately obtain ps where ps: "draws rnds (refillBag rnd) = Inr (ps, [])"
      "map colorIdx ps = rev (refillBag rnd)"
    using draws_pop by blast
  have "mset (map colorIdx ps) = mset (refillBag rnd)"
    by (simp add: ps(2))
  then show ?thesis
    using ps(1) refillBag_mset(1) [of rnd] by simp
qed

lemma draws_from_empty:
  "rnds \<noteq> [] \<Longrightarrow> draws rnds [] = draws rnds (refillBag (hd rnds))"
  by (cases rnds) (simp_all add: PieceBag_next_refill [where rnd' = "hd rnds"])

lemma PieceBag_next_keeps_distinct:
  assumes "distinct bag" "set bag \<subseteq> {0..6}"
  shows "\<exists>p bag'. PieceBag_next rnd bag = Inr (p, bag') \<and> distinct bag' \<and>
           set bag' \<subseteq> {0..6} \<and> colorIdx p \<notin> set bag' \<and>
           (if bag = [] then mset (colorIdx p # bag') = mset [0,1,2,3,4,5,6]
            else bag = bag' @ [colorIdx p])"
proof -
  have pop: "\<exists>p. PieceBag_next rnd' b = Inr (p, butlast b) \<and> colorIdx p = last b \<and>
               distinct (butlast b) \<and> set (butlast b) \<subseteq> {0..6} \<and> last b \<notin> set (butlast b)"
    if b: "b \<noteq> []" "distinct b" "set b \<subseteq> {0..6}" for b rnd'
  proof -
    from PieceBag_next_pop [OF b(1) b(3)]
    obtain p where "PieceBag_next rnd' b = Inr (p, butlast b)" "colorIdx p = last b"
      by blast
    moreover have "distinct (butlast b)"
      using b(2) by (rule distinct_butlast)
    moreover have "set (butlast b) \<subseteq> {0..6}"
      using b(3) in_set_butlastD by fastforce
    moreover have "last b \<notin> set (butlast b)"
      using b(1,2) by (metis append_butlast_last_id distinct_append distinct.simps(2) disjoint_iff list.set_intros(1) not_distinct_conv_prefix)
    ultimately show ?thesis by blast
  qed
  show ?thesis
  proof (cases "bag = []")
    case True
    let ?b = "refillBag rnd"
    have ne: "?b \<noteq> []"
      using refillBag_mset(2) [of rnd] by auto
    from pop [OF ne refillBag_set(2), of rnd] refillBag_set(1) [of rnd]
    obtain p where p: "PieceBag_next rnd ?b = Inr (p, butlast ?b)" "colorIdx p = last ?b"
        "distinct (butlast ?b)" "set (butlast ?b) \<subseteq> {0..6}" "last ?b \<notin> set (butlast ?b)"
      by auto
    have "mset (butlast ?b @ [last ?b]) = mset [0,1,2,3,4,5,6]"
      using refillBag_mset(1) [of rnd] by (simp only: append_butlast_last_id [OF ne])
    then have "mset (colorIdx p # butlast ?b) = mset [0,1,2,3,4,5,6]"
      using p(2) by simp
    then show ?thesis
      using True p PieceBag_next_refill [of rnd rnd] by auto
  next
    case False
    from pop [OF False assms, of rnd]
    obtain p where p: "PieceBag_next rnd bag = Inr (p, butlast bag)" "colorIdx p = last bag"
        "distinct (butlast bag)" "set (butlast bag) \<subseteq> {0..6}" "last bag \<notin> set (butlast bag)"
      by auto
    then show ?thesis
      using False by auto
  qed
qed

text \<open>
  C8. Whatever the draws of the shuffles: seven consecutive calls of \<^verbatim>\<open>next\<close> on an empty
  bag (the first of them refills it) or on a bag just refilled all succeed, leave the bag
  empty, and return each of the seven types once. A refilled bag holds the seven types
  without duplicate, and a call of \<^verbatim>\<open>next\<close> on a bag without duplicate leaves a bag without
  duplicate that no longer holds the type returned; on the empty bag, the type returned
  and the bag left are the seven types.
\<close>

theorem bag_cycle_draws_each_type_once:
  assumes "length rnds = 7"
  shows "(\<exists>ps. draws rnds [] = Inr (ps, []) \<and> mset (map colorIdx ps) = mset [0,1,2,3,4,5,6])
       \<and> (\<exists>ps. draws rnds (refillBag rnd) = Inr (ps, []) \<and>
                mset (map colorIdx ps) = mset [0,1,2,3,4,5,6])
       \<and> distinct (refillBag rnd) \<and> set (refillBag rnd) = {0..6}
       \<and> (distinct bag \<and> set bag \<subseteq> {0..6} \<longrightarrow>
            (\<exists>p bag'. PieceBag_next rnd bag = Inr (p, bag') \<and> distinct bag' \<and>
               set bag' \<subseteq> {0..6} \<and> colorIdx p \<notin> set bag' \<and>
               (if bag = [] then mset (colorIdx p # bag') = mset [0,1,2,3,4,5,6]
                else bag = bag' @ [colorIdx p])))"
proof -
  have ne: "rnds \<noteq> []"
    using assms by auto
  have a: "\<exists>ps. draws rnds [] = Inr (ps, []) \<and> mset (map colorIdx ps) = mset [0,1,2,3,4,5,6]"
    using draws_cycle [OF assms, of "hd rnds"] draws_from_empty [OF ne] by simp
  have b: "\<exists>ps. draws rnds (refillBag rnd) = Inr (ps, []) \<and>
                mset (map colorIdx ps) = mset [0,1,2,3,4,5,6]"
    by (rule draws_cycle [OF assms])
  from a b refillBag_set [of rnd] PieceBag_next_keeps_distinct [of bag rnd]
  show ?thesis
    by blast
qed

lemma refillBag_zero: "refillBag (\<lambda>_. 0) = [1,2,3,4,5,6,0]"
  by (simp add: refillBag_def rand_def eval_nat_numeral)

theorem bag_cycle_draws_each_type_once_witness:
  "length (replicate 7 (\<lambda>_::nat. 0::nat)) = 7 \<and>
   (\<exists>ps. draws (replicate 7 (\<lambda>_. 0)) [] = Inr (ps, []) \<and>
      mset (map colorIdx ps) = mset [0,1,2,3,4,5,6]) \<and>
   (\<exists>p. PieceBag_next (\<lambda>_. 0) [1,2,3] = Inr (p, [1,2]) \<and> colorIdx p = 3)"
proof -
  have h: "length (replicate 7 (\<lambda>_::nat. 0::nat)) = 7"
    by simp
  have d: "distinct [1,2,3::int] \<and> set [1,2,3::int] \<subseteq> {0..6}"
    by simp
  from bag_cycle_draws_each_type_once [OF h, of "\<lambda>_. 0" "[1,2,3]"] d
  show ?thesis
    by auto
qed

section \<open>Facts about the sessions\<close>

lemma merge_O_floor: "merge_board emptyGrid (O_spawn\<lparr>y := 18\<rparr>) = Inr floor_O_board"
  by code_simp

lemma clearLines_floor_O: "clearLines floor_O_board = \<lparr>newGrid = floor_O_board, cleared = 0\<rparr>"
  by code_simp

lemma collides_O_floor: "collides floor_O_board O_spawn = Inr False"
  by code_simp

lemma randomPiece_0: "randomPiece 0 = Inr O_spawn"
  by (simp add: randomPiece_def rand_def spawn_O)

lemma running_O_reached:
  "resetGame (\<lambda>_. 0) running_O = Inr (running_O\<lparr>started := False\<rparr>)"
  by code_simp

lemma lockPiece_summary:
  assumes "piece s = Some p" "merge_board (grid s) p = Inr merged"
    and "PieceBag_next rnd (pieceBag s) = Inr (drawn, bag)"
    and "nextPieces s = q # qs"
    and "collides (newGrid (clearLines merged)) q = Inr c"
  shows "lockPiece rnd s =
           Inr (s\<lparr>grid := newGrid (clearLines merged),
                  score := score s + (if cleared (clearLines merged) > 0
                                      then calculateScore (cleared (clearLines merged)) (level s)
                                      else 0),
                  lines := lines s + (if cleared (clearLines merged) > 0
                                      then cleared (clearLines merged) else 0),
                  nextPieces := qs @ [drawn], piece := Some q, canHold := True,
                  pieceBag := bag, over := (over s \<or> c)\<rparr>)"
  using assms by (simp add: lockPiece_def Let_def)


section \<open>Soft drop, rejected actions and the O piece\<close>

text \<open>
  C5, as far as it holds. In the richer ruleset a soft drop (the \<^verbatim>\<open>ArrowDown\<close> key) whose
  position one row lower collides does what a blocked gravity tick does: both run
  \<^verbatim>\<open>lockPiece\<close>, which merges the piece, clears the lines, adds the score of the cleared
  lines, takes the next piece from the queue and refills the queue from the bag. In the
  simpler ruleset a blocked soft drop (key or button) is a plain rejection: the state is
  unchanged; only the gravity tick locks there, and when the piece's row is 0 that tick
  sets \<^verbatim>\<open>over\<close> and merges nothing.
\<close>

theorem blocked_soft_drop:
  assumes "started s" "\<not> over s" "\<not> paused s" "piece s = Some p"
    and "collides (grid s) (p\<lparr>y := y p + 1\<rparr>) = Inr True"
    and "started_solo t" "\<not> over_solo t"
    and "collides_solo (grid_solo t) ((piece_solo t)\<lparr>y := y (piece_solo t) + 1\<rparr>) = Inr True"
  shows "handleKeyDown ''ArrowDown'' rnd s = Some (lockPiece rnd s)
       \<and> gravity rnd s = lockPiece rnd s
       \<and> (\<forall>merged drawn bag q qs c.
             merge_board (grid s) p = Inr merged \<and>
             PieceBag_next rnd (pieceBag s) = Inr (drawn, bag) \<and>
             nextPieces s = q # qs \<and>
             collides (newGrid (clearLines merged)) q = Inr c \<longrightarrow>
             lockPiece rnd s =
               Inr (s\<lparr>grid := newGrid (clearLines merged),
                      score := score s + (if cleared (clearLines merged) > 0
                                          then calculateScore (cleared (clearLines merged)) (level s)
                                          else 0),
                      lines := lines s + (if cleared (clearLines merged) > 0
                                          then cleared (clearLines merged) else 0),
                      nextPieces := qs @ [drawn], piece := Some q, canHold := True,
                      pieceBag := bag, over := (over s \<or> c)\<rparr>))
       \<and> onKey_solo ''ArrowDown'' r1 r2 t = Some (Inr t)
       \<and> moveDown_solo t = Inr t
       \<and> (\<not> paused_solo t \<and> y (piece_solo t) = 0 \<longrightarrow>
            gravity_solo r t = Inr (t\<lparr>over_solo := True\<rparr>))
       \<and> (\<forall>merged fresh.
             \<not> paused_solo t \<and> y (piece_solo t) \<noteq> 0 \<and>
             merge_board (grid_solo t) (piece_solo t) = Inr merged \<and> randomPiece r = Inr fresh \<longrightarrow>
             gravity_solo r t =
               Inr (t\<lparr>grid_solo := newGrid (clearLines merged),
                      score_solo := score_solo t + 10 + cleared (clearLines merged) * 100,
                      level_solo := level_solo t + cleared (clearLines merged),
                      piece_solo := nextPiece_solo t,
                      nextPiece_solo := fresh\<rparr>))"
proof (intro conjI allI impI)
  show "handleKeyDown ''ArrowDown'' rnd s = Some (lockPiece rnd s)"
    using assms(1-5) by (simp add: handleKeyDown_def)
  show "gravity rnd s = lockPiece rnd s"
    using assms(1-5) by (simp add: gravity_def)
next
  fix merged drawn bag q qs c
  assume "merge_board (grid s) p = Inr merged \<and>
             PieceBag_next rnd (pieceBag s) = Inr (drawn, bag) \<and>
             nextPieces s = q # qs \<and>
             collides (newGrid (clearLines merged)) q = Inr c"
  then show "lockPiece rnd s =
               Inr (s\<lparr>grid := newGrid (clearLines merged),
                      score := score s + (if cleared (clearLines merged) > 0
                                          then calculateScore (cleared (clearLines merged)) (level s)
                                          else 0),
                      lines := lines s + (if cleared (clearLines merged) > 0
                                          then cleared (clearLines merged) else 0),
                      nextPieces := qs @ [drawn], piece := Some q, canHold := True,
                      pieceBag := bag, over := (over s \<or> c)\<rparr>)"
    using lockPiece_summary [OF assms(4), of merged rnd drawn bag q qs c] by blast
next
  show "onKey_solo ''ArrowDown'' r1 r2 t = Some (Inr t)"
    using assms(6-8) by (simp add: onKey_solo_def onKey_piece_def onKey_proposal_def)
  show "moveDown_solo t = Inr t"
    using assms(8) by (simp add: moveDown_solo_def)
next
  assume "\<not> paused_solo t \<and> y (piece_solo t) = 0"
  then show "gravity_solo r t = Inr (t\<lparr>over_solo := True\<rparr>)"
    using assms(6-8) by (simp add: gravity_solo_def)
next
  fix merged fresh
  assume "\<not> paused_solo t \<and> y (piece_solo t) \<noteq> 0 \<and>
             merge_board (grid_solo t) (piece_solo t) = Inr merged \<and> randomPiece r = Inr fresh"
  then show "gravity_solo r t =
               Inr (t\<lparr>grid_solo := newGrid (clearLines merged),
                      score_solo := score_solo t + 10 + cleared (clearLines merged) * 100,
                      level_solo := level_solo t + cleared (clearLines merged),
                      piece_solo := nextPiece_solo t,
                      nextPiece_solo := fresh\<rparr>)"
    using assms(6-8) by (simp add: gravity_solo_def Let_def)
qed

lemma resting_O_fields:
  "started resting_O" "\<not> over resting_O" "\<not> paused resting_O"
  "piece resting_O = Some (O_spawn\<lparr>y := 18\<rparr>)" "grid resting_O = emptyGrid"
  "nextPieces resting_O =
     [O_spawn, \<lparr>shape = [[0,0,1],[1,1,1]], x = 3, y = 0, colorIdx = 6\<rparr>,
      \<lparr>shape = [[1,0,0],[1,1,1]], x = 3, y = 0, colorIdx = 5\<rparr>]"
  "pieceBag resting_O = [1,2,3,4]" "score resting_O = 0" "lines resting_O = 0"
  "canHold resting_O" "holdPiece resting_O = None"
  by (simp_all add: resting_O_def running_O_def)

lemma resting_O_solo_fields:
  "started_solo resting_O_solo" "\<not> over_solo resting_O_solo" "\<not> paused_solo resting_O_solo"
  "piece_solo resting_O_solo = O_spawn\<lparr>y := 18\<rparr>" "grid_solo resting_O_solo = emptyGrid"
  "score_solo resting_O_solo = 0" "level_solo resting_O_solo = 0"
  by (simp_all add: resting_O_solo_def running_O_solo_def)

lemma PieceBag_next_1234:
  "PieceBag_next rnd [1,2,3,4] = Inr (\<lparr>shape = [[1,1,0],[0,1,1]], x = 3, y = 0, colorIdx = 4\<rparr>, [1,2,3])"
  by (simp add: PieceBag_next_def spawn_def SHAPES_def COLS_def)

theorem blocked_soft_drop_witness:
  "started resting_O \<and> \<not> over resting_O \<and> \<not> paused resting_O \<and>
   collides (grid resting_O) (O_spawn\<lparr>y := 19\<rparr>) = Inr True \<and>
   handleKeyDown ''ArrowDown'' (\<lambda>_. 0) resting_O =
     Some (Inr (resting_O\<lparr>grid := floor_O_board,
                 nextPieces := [\<lparr>shape = [[0,0,1],[1,1,1]], x = 3, y = 0, colorIdx = 6\<rparr>,
                                \<lparr>shape = [[1,0,0],[1,1,1]], x = 3, y = 0, colorIdx = 5\<rparr>,
                                \<lparr>shape = [[1,1,0],[0,1,1]], x = 3, y = 0, colorIdx = 4\<rparr>],
                 piece := Some O_spawn, pieceBag := [1,2,3]\<rparr>)) \<and>
   onKey_solo ''ArrowDown'' 0 0 resting_O_solo = Some (Inr resting_O_solo) \<and>
   gravity_solo 0 resting_O_solo =
     Inr (resting_O_solo\<lparr>grid_solo := floor_O_board, score_solo := 10,
            piece_solo := nextPiece_solo resting_O_solo, nextPiece_solo := O_spawn\<rparr>)"
proof -
  have c: "collides (grid resting_O) ((O_spawn\<lparr>y := 18\<rparr>)\<lparr>y := y (O_spawn\<lparr>y := 18\<rparr>) + 1\<rparr>) = Inr True"
    by (simp add: resting_O_fields collides_O_empty)
  have c': "collides_solo (grid_solo resting_O_solo)
              ((piece_solo resting_O_solo)\<lparr>y := y (piece_solo resting_O_solo) + 1\<rparr>) = Inr True"
    by (simp add: resting_O_solo_fields collides_O_empty)
  note inst = blocked_soft_drop [OF resting_O_fields(1,2,3,4) c resting_O_solo_fields(1,2) c',
      of "\<lambda>_. 0" 0 0 0]
  have lock: "lockPiece (\<lambda>_. 0) resting_O =
      Inr (resting_O\<lparr>grid := floor_O_board,
                 nextPieces := [\<lparr>shape = [[0,0,1],[1,1,1]], x = 3, y = 0, colorIdx = 6\<rparr>,
                                \<lparr>shape = [[1,0,0],[1,1,1]], x = 3, y = 0, colorIdx = 5\<rparr>,
                                \<lparr>shape = [[1,1,0],[0,1,1]], x = 3, y = 0, colorIdx = 4\<rparr>],
                 piece := Some O_spawn, pieceBag := [1,2,3]\<rparr>)"
  proof -
    have "merge_board (grid resting_O) (O_spawn\<lparr>y := 18\<rparr>) = Inr floor_O_board \<and>
          PieceBag_next (\<lambda>_. 0) (pieceBag resting_O) =
            Inr (\<lparr>shape = [[1,1,0],[0,1,1]], x = 3, y = 0, colorIdx = 4\<rparr>, [1,2,3]) \<and>
          nextPieces resting_O =
            O_spawn # [\<lparr>shape = [[0,0,1],[1,1,1]], x = 3, y = 0, colorIdx = 6\<rparr>,
                       \<lparr>shape = [[1,0,0],[1,1,1]], x = 3, y = 0, colorIdx = 5\<rparr>] \<and>
          collides (newGrid (clearLines floor_O_board)) O_spawn = Inr False"
      by (simp add: resting_O_fields merge_O_floor PieceBag_next_1234 clearLines_floor_O
          collides_O_floor)
    with inst have "lockPiece (\<lambda>_. 0) resting_O =
               Inr (resting_O\<lparr>grid := newGrid (clearLines floor_O_board),
                      score := score resting_O + (if cleared (clearLines floor_O_board) > 0
                                          then calculateScore (cleared (clearLines floor_O_board)) (level resting_O)
                                          else 0),
                      lines := lines resting_O + (if cleared (clearLines floor_O_board) > 0
                                          then cleared (clearLines floor_O_board) else 0),
                      nextPieces := [\<lparr>shape = [[0,0,1],[1,1,1]], x = 3, y = 0, colorIdx = 6\<rparr>,
                       \<lparr>shape = [[1,0,0],[1,1,1]], x = 3, y = 0, colorIdx = 5\<rparr>] @
                         [\<lparr>shape = [[1,1,0],[0,1,1]], x = 3, y = 0, colorIdx = 4\<rparr>],
                      piece := Some O_spawn, canHold := True,
                      pieceBag := [1,2,3], over := (over resting_O \<or> False)\<rparr>)"
      by blast
    then show ?thesis
      by (simp add: clearLines_floor_O) (simp add: resting_O_def running_O_def)
  qed
  have grav: "gravity_solo 0 resting_O_solo =
     Inr (resting_O_solo\<lparr>grid_solo := floor_O_board, score_solo := 10,
            piece_solo := nextPiece_solo resting_O_solo, nextPiece_solo := O_spawn\<rparr>)"
  proof -
    have "\<not> paused_solo resting_O_solo \<and> y (piece_solo resting_O_solo) \<noteq> 0 \<and>
             merge_board (grid_solo resting_O_solo) (piece_solo resting_O_solo) = Inr floor_O_board \<and>
             randomPiece 0 = Inr O_spawn"
      by (simp add: resting_O_solo_fields merge_O_floor randomPiece_0)
    with inst have "gravity_solo 0 resting_O_solo =
               Inr (resting_O_solo\<lparr>grid_solo := newGrid (clearLines floor_O_board),
                      score_solo := score_solo resting_O_solo + 10 + cleared (clearLines floor_O_board) * 100,
                      level_solo := level_solo resting_O_solo + cleared (clearLines floor_O_board),
                      piece_solo := nextPiece_solo resting_O_solo,
                      nextPiece_solo := O_spawn\<rparr>)"
      by blast
    then show ?thesis
      by (simp add: clearLines_floor_O resting_O_solo_fields)
  qed
  from inst have "handleKeyDown ''ArrowDown'' (\<lambda>_. 0) resting_O = Some (lockPiece (\<lambda>_. 0) resting_O)"
    and "onKey_solo ''ArrowDown'' 0 0 resting_O_solo = Some (Inr resting_O_solo)"
    by blast+
  then show ?thesis
    using lock grav c by (simp add: resting_O_fields)
qed

text \<open>
  C5 as stated, for every ruleset, fails in the simpler one: with the O piece on the floor
  of the empty board, the position one row lower collides, the \<^verbatim>\<open>ArrowDown\<close> key and the
  down button leave the whole state as it is, and it is the gravity tick that locks the
  piece.
\<close>

theorem soft_drop_solo_is_rejected:
  "collides_solo (grid_solo resting_O_solo) ((piece_solo resting_O_solo)\<lparr>y := 19\<rparr>) = Inr True \<and>
   onKey_solo ''ArrowDown'' 0 0 resting_O_solo = Some (Inr resting_O_solo) \<and>
   moveDown_solo resting_O_solo = Inr resting_O_solo \<and>
   gravity_solo 0 resting_O_solo =
     Inr (resting_O_solo\<lparr>grid_solo := floor_O_board, score_solo := 10,
            piece_solo := nextPiece_solo resting_O_solo, nextPiece_solo := O_spawn\<rparr>)"
proof -
  have c: "collides_solo emptyGrid (O_spawn\<lparr>y := 19\<rparr>) = Inr True"
    by (simp add: collides_O_empty)
  have a: "onKey_solo ''ArrowDown'' 0 0 resting_O_solo = Some (Inr resting_O_solo)"
    using c by (simp add: onKey_solo_def onKey_piece_def onKey_proposal_def resting_O_solo_fields)
  have b: "moveDown_solo resting_O_solo = Inr resting_O_solo"
    using c by (simp add: moveDown_solo_def resting_O_solo_fields)
  have g: "gravity_solo 0 resting_O_solo =
     Inr (resting_O_solo\<lparr>grid_solo := floor_O_board, score_solo := 10,
            piece_solo := nextPiece_solo resting_O_solo, nextPiece_solo := O_spawn\<rparr>)"
    using c by (simp add: gravity_solo_def resting_O_solo_fields merge_O_floor randomPiece_0
        clearLines_floor_O)
  from a b g c show ?thesis
    by (simp add: resting_O_solo_fields)
qed

text \<open>
  C9. A rejected action returns the state it was given, whole. In the richer ruleset: a move
  to the left or to the right whose position collides, a rotation whose rotated piece
  collides, and a hold while holding is not allowed. After a hold with an empty slot the
  piece is in the slot, re-centred on row 0, the head of the queue is the active piece,
  holding is not allowed, and a second hold changes nothing. In the simpler ruleset: a
  move or a rotation, by key or by button, whose position collides. (A blocked move
  downwards is the soft drop of C5.)
\<close>

theorem rejected_actions_change_nothing:
  assumes "started s" "\<not> over s" "\<not> paused s" "piece s = Some p"
    and "started_solo t" "\<not> over_solo t"
  shows "(collides (grid s) (p\<lparr>x := x p - 1\<rparr>) = Inr True \<longrightarrow>
            handleKeyDown ''ArrowLeft'' rnd s = Some (Inr s))
       \<and> (collides (grid s) (p\<lparr>x := x p + 1\<rparr>) = Inr True \<longrightarrow>
            handleKeyDown ''ArrowRight'' rnd s = Some (Inr s))
       \<and> (\<forall>sh. rotate (shape p) = Inr sh \<and> collides (grid s) (p\<lparr>shape := sh\<rparr>) = Inr True \<longrightarrow>
            handleKeyDown '' '' rnd s = Some (Inr s) \<and> rotatePiece s = Inr s)
       \<and> (\<not> canHold s \<longrightarrow>
            handleKeyDown ''c'' rnd s = Some (Inr s) \<and> handleKeyDown ''C'' rnd s = Some (Inr s) \<and>
            holdPieceAction rnd s = Inr s)
       \<and> (\<forall>s1. canHold s \<and> holdPiece s = None \<and> handleKeyDown ''c'' rnd s = Some (Inr s1) \<longrightarrow>
            (\<exists>held. centered p = Inr held \<and> holdPiece s1 = Some held) \<and>
            piece s1 = (case nextPieces s of [] \<Rightarrow> None | q # _ \<Rightarrow> Some q) \<and>
            \<not> canHold s1 \<and>
            handleKeyDown ''c'' rnd' s1 = Some (Inr s1))
       \<and> (collides_solo (grid_solo t) ((piece_solo t)\<lparr>x := x (piece_solo t) - 1\<rparr>) = Inr True \<longrightarrow>
            onKey_solo ''ArrowLeft'' r1 r2 t = Some (Inr t) \<and> moveLeft_solo t = Inr t)
       \<and> (collides_solo (grid_solo t) ((piece_solo t)\<lparr>x := x (piece_solo t) + 1\<rparr>) = Inr True \<longrightarrow>
            onKey_solo ''ArrowRight'' r1 r2 t = Some (Inr t) \<and> moveRight_solo t = Inr t)
       \<and> (\<forall>sh. rotate_solo (shape (piece_solo t)) = Inr sh \<and>
                collides_solo (grid_solo t) ((piece_solo t)\<lparr>shape := sh\<rparr>) = Inr True \<longrightarrow>
            onKey_solo '' '' r1 r2 t = Some (Inr t) \<and> rotatePiece_solo t = Inr t)"
proof (intro conjI allI impI)
  assume "collides (grid s) (p\<lparr>x := x p - 1\<rparr>) = Inr True"
  then show "handleKeyDown ''ArrowLeft'' rnd s = Some (Inr s)"
    using assms(1-4) by (simp add: handleKeyDown_def shift_def)
next
  assume "collides (grid s) (p\<lparr>x := x p + 1\<rparr>) = Inr True"
  then show "handleKeyDown ''ArrowRight'' rnd s = Some (Inr s)"
    using assms(1-4) by (simp add: handleKeyDown_def shift_def)
next
  fix sh
  assume a: "rotate (shape p) = Inr sh \<and> collides (grid s) (p\<lparr>shape := sh\<rparr>) = Inr True"
  then show "rotatePiece s = Inr s"
    using assms(4) by (simp add: rotatePiece_def)
  then show "handleKeyDown '' '' rnd s = Some (Inr s)"
    using assms(1-3) by (simp add: handleKeyDown_def)
next
  assume a: "\<not> canHold s"
  then show h: "holdPieceAction rnd s = Inr s"
    using assms(4) by (simp add: holdPieceAction_def)
  then show "handleKeyDown ''c'' rnd s = Some (Inr s)" "handleKeyDown ''C'' rnd s = Some (Inr s)"
    using assms(1-3) by (simp_all add: handleKeyDown_def)
next
  fix s1
  assume a: "canHold s \<and> holdPiece s = None \<and> handleKeyDown ''c'' rnd s = Some (Inr s1)"
  then have hold: "holdPieceAction rnd s = Inr s1"
    using assms(1-3) by (simp add: handleKeyDown_def)
  then obtain newHold drawn bag where
      c: "centered p = Inr newHold" and
      s1: "s1 = s\<lparr>holdPiece := Some newHold,
                   nextPieces := tl (nextPieces s) @ [drawn],
                   piece := (case nextPieces s of [] \<Rightarrow> None | q # _ \<Rightarrow> Some q),
                   canHold := False,
                   pieceBag := bag\<rparr>"
    using a assms(4)
    by (auto simp: holdPieceAction_def split: sum.splits prod.splits)
  show "\<exists>held. centered p = Inr held \<and> holdPiece s1 = Some held"
    "piece s1 = (case nextPieces s of [] \<Rightarrow> None | q # _ \<Rightarrow> Some q)" "\<not> canHold s1"
    using c by (simp_all add: s1)
  have "started s1" "\<not> over s1" "\<not> paused s1" "\<not> canHold s1"
    using assms(1-3) by (simp_all add: s1)
  then show "handleKeyDown ''c'' rnd' s1 = Some (Inr s1)"
    by (simp add: handleKeyDown_def holdPieceAction_def split: option.splits)
next
  assume "collides_solo (grid_solo t) ((piece_solo t)\<lparr>x := x (piece_solo t) - 1\<rparr>) = Inr True"
  then show "onKey_solo ''ArrowLeft'' r1 r2 t = Some (Inr t)" "moveLeft_solo t = Inr t"
    using assms(5,6)
    by (simp_all add: onKey_solo_def onKey_piece_def onKey_proposal_def moveLeft_solo_def)
next
  assume "collides_solo (grid_solo t) ((piece_solo t)\<lparr>x := x (piece_solo t) + 1\<rparr>) = Inr True"
  then show "onKey_solo ''ArrowRight'' r1 r2 t = Some (Inr t)" "moveRight_solo t = Inr t"
    using assms(5,6)
    by (simp_all add: onKey_solo_def onKey_piece_def onKey_proposal_def moveRight_solo_def)
next
  fix sh
  assume "rotate_solo (shape (piece_solo t)) = Inr sh \<and>
                collides_solo (grid_solo t) ((piece_solo t)\<lparr>shape := sh\<rparr>) = Inr True"
  then show "onKey_solo '' '' r1 r2 t = Some (Inr t)" "rotatePiece_solo t = Inr t"
    using assms(5,6)
    by (simp_all add: onKey_solo_def onKey_piece_def onKey_proposal_def rotatePiece_solo_def)
qed

lemma wall_O_fields:
  "started wall_O" "\<not> over wall_O" "\<not> paused wall_O"
  "piece wall_O = Some (O_spawn\<lparr>x := 0\<rparr>)" "grid wall_O = emptyGrid"
  "canHold wall_O" "holdPiece wall_O = None"
  by (simp_all add: wall_O_def running_O_def)

lemma wall_O_solo_fields:
  "started_solo wall_O_solo" "\<not> over_solo wall_O_solo"
  "piece_solo wall_O_solo = O_spawn\<lparr>x := 0\<rparr>" "grid_solo wall_O_solo = emptyGrid"
  by (simp_all add: wall_O_solo_def running_O_solo_def)

lemma collides_O_wall:
  "collides emptyGrid (O_spawn\<lparr>x := - 1\<rparr>) = Inr True"
  "collides_solo emptyGrid (O_spawn\<lparr>x := - 1\<rparr>) = Inr True"
  by code_simp+

lemma hold_wall_O:
  "handleKeyDown ''c'' (\<lambda>_. 0) wall_O =
     Some (Inr (wall_O\<lparr>holdPiece := Some O_spawn,
                 nextPieces := [\<lparr>shape = [[0,0,1],[1,1,1]], x = 3, y = 0, colorIdx = 6\<rparr>,
                                \<lparr>shape = [[1,0,0],[1,1,1]], x = 3, y = 0, colorIdx = 5\<rparr>,
                                \<lparr>shape = [[1,1,0],[0,1,1]], x = 3, y = 0, colorIdx = 4\<rparr>],
                 piece := Some O_spawn, canHold := False, pieceBag := [1,2,3]\<rparr>))"
  by (simp add: handleKeyDown_def holdPieceAction_def wall_O_def running_O_def centered_def
      O_spawn_def PieceBag_next_1234 COLS_def)

theorem rejected_actions_change_nothing_witness:
  "started wall_O \<and> \<not> over wall_O \<and> \<not> paused wall_O \<and>
   collides (grid wall_O) (O_spawn\<lparr>x := - 1\<rparr>) = Inr True \<and>
   handleKeyDown ''ArrowLeft'' (\<lambda>_. 0) wall_O = Some (Inr wall_O) \<and>
   onKey_solo ''ArrowLeft'' 0 0 wall_O_solo = Some (Inr wall_O_solo) \<and>
   handleKeyDown ''c'' (\<lambda>_. 0)
     (wall_O\<lparr>holdPiece := Some O_spawn,
             nextPieces := [\<lparr>shape = [[0,0,1],[1,1,1]], x = 3, y = 0, colorIdx = 6\<rparr>,
                            \<lparr>shape = [[1,0,0],[1,1,1]], x = 3, y = 0, colorIdx = 5\<rparr>,
                            \<lparr>shape = [[1,1,0],[0,1,1]], x = 3, y = 0, colorIdx = 4\<rparr>],
             piece := Some O_spawn, canHold := False, pieceBag := [1,2,3]\<rparr>) =
     Some (Inr (wall_O\<lparr>holdPiece := Some O_spawn,
             nextPieces := [\<lparr>shape = [[0,0,1],[1,1,1]], x = 3, y = 0, colorIdx = 6\<rparr>,
                            \<lparr>shape = [[1,0,0],[1,1,1]], x = 3, y = 0, colorIdx = 5\<rparr>,
                            \<lparr>shape = [[1,1,0],[0,1,1]], x = 3, y = 0, colorIdx = 4\<rparr>],
             piece := Some O_spawn, canHold := False, pieceBag := [1,2,3]\<rparr>))"
proof -
  have l: "collides (grid wall_O) ((O_spawn\<lparr>x := 0\<rparr>)\<lparr>x := x (O_spawn\<lparr>x := 0\<rparr>) - 1\<rparr>) = Inr True"
    by (simp add: wall_O_fields collides_O_wall)
  have l': "collides_solo (grid_solo wall_O_solo)
              ((piece_solo wall_O_solo)\<lparr>x := x (piece_solo wall_O_solo) - 1\<rparr>) = Inr True"
    by (simp add: wall_O_solo_fields collides_O_wall)
  note inst = rejected_actions_change_nothing
      [OF wall_O_fields(1,2,3,4) wall_O_solo_fields(1,2), of "\<lambda>_. 0" "\<lambda>_. 0" 0 0]
  from inst l have a: "handleKeyDown ''ArrowLeft'' (\<lambda>_. 0) wall_O = Some (Inr wall_O)"
    by blast
  from inst l' have b: "onKey_solo ''ArrowLeft'' 0 0 wall_O_solo = Some (Inr wall_O_solo)"
    by blast
  from inst wall_O_fields(6,7) hold_wall_O
  have c: "handleKeyDown ''c'' (\<lambda>_. 0)
     (wall_O\<lparr>holdPiece := Some O_spawn,
             nextPieces := [\<lparr>shape = [[0,0,1],[1,1,1]], x = 3, y = 0, colorIdx = 6\<rparr>,
                            \<lparr>shape = [[1,0,0],[1,1,1]], x = 3, y = 0, colorIdx = 5\<rparr>,
                            \<lparr>shape = [[1,1,0],[0,1,1]], x = 3, y = 0, colorIdx = 4\<rparr>],
             piece := Some O_spawn, canHold := False, pieceBag := [1,2,3]\<rparr>) =
     Some (Inr (wall_O\<lparr>holdPiece := Some O_spawn,
             nextPieces := [\<lparr>shape = [[0,0,1],[1,1,1]], x = 3, y = 0, colorIdx = 6\<rparr>,
                            \<lparr>shape = [[1,0,0],[1,1,1]], x = 3, y = 0, colorIdx = 5\<rparr>,
                            \<lparr>shape = [[1,1,0],[0,1,1]], x = 3, y = 0, colorIdx = 4\<rparr>],
             piece := Some O_spawn, canHold := False, pieceBag := [1,2,3]\<rparr>))"
    by blast
  from a b c show ?thesis
    by (simp add: wall_O_fields collides_O_wall)
qed

text \<open>
  C6, as far as it holds. \<^verbatim>\<open>randomPiece\<close> and the bag build the O piece at \<open>x = 4\<close>, the floor
  of \<open>(COLS - 2) / 2\<close>, and \<open>y = 0\<close>, where it does not collide with the empty board. From
  each \<open>y\<close> in \<open>0 .. 17\<close> the position one row lower is free and the soft drop of either
  ruleset moves the piece there: 18 moves take it to \<open>y = 18\<close>, where it lies on the floor.
  The position at \<open>y = 19\<close> collides, so it is the 19th attempt that is blocked; the richer
  ruleset's soft drop then runs \<^verbatim>\<open>lockPiece\<close>, and merging the piece gives the board with
  the O in rows 18 and 19.
\<close>

theorem O_piece_reaches_floor:
  assumes "started s" "\<not> over s" "\<not> paused s" "grid s = emptyGrid"
    and "started_solo t" "\<not> over_solo t" "grid_solo t = emptyGrid"
  shows "spawn 0 = Inr O_spawn \<and> randomPiece 0 = Inr O_spawn
       \<and> x O_spawn = (int COLS - 2) div 2 \<and> y O_spawn = 0
       \<and> collides emptyGrid O_spawn = Inr False \<and> collides_solo emptyGrid O_spawn = Inr False
       \<and> (\<forall>k. 0 \<le> k \<and> k < 18 \<longrightarrow>
             collides emptyGrid (O_spawn\<lparr>y := k + 1\<rparr>) = Inr False \<and>
             collides_solo emptyGrid (O_spawn\<lparr>y := k + 1\<rparr>) = Inr False \<and>
             (piece s = Some (O_spawn\<lparr>y := k\<rparr>) \<longrightarrow>
                handleKeyDown ''ArrowDown'' rnd s = Some (Inr (s\<lparr>piece := Some (O_spawn\<lparr>y := k + 1\<rparr>)\<rparr>))) \<and>
             (piece_solo t = O_spawn\<lparr>y := k\<rparr> \<longrightarrow>
                onKey_solo ''ArrowDown'' r1 r2 t = Some (Inr (t\<lparr>piece_solo := O_spawn\<lparr>y := k + 1\<rparr>\<rparr>))))
       \<and> collides emptyGrid (O_spawn\<lparr>y := 19\<rparr>) = Inr True
       \<and> collides_solo emptyGrid (O_spawn\<lparr>y := 19\<rparr>) = Inr True
       \<and> (piece s = Some (O_spawn\<lparr>y := 18\<rparr>) \<longrightarrow>
            handleKeyDown ''ArrowDown'' rnd s = Some (lockPiece rnd s))
       \<and> merge_board emptyGrid (O_spawn\<lparr>y := 18\<rparr>) = Inr floor_O_board"
proof -
  have spawn: "spawn 0 = Inr O_spawn" "randomPiece 0 = Inr O_spawn"
      "x O_spawn = (int COLS - 2) div 2" "y O_spawn = 0"
    by (simp_all add: spawn_O randomPiece_0) (simp_all add: O_spawn_def COLS_def)
  have start: "collides emptyGrid O_spawn = Inr False" "collides_solo emptyGrid O_spawn = Inr False"
    using collides_O_empty [of 0] by (simp_all add: y_O_spawn)
  have move: "collides emptyGrid (O_spawn\<lparr>y := k + 1\<rparr>) = Inr False \<and>
             collides_solo emptyGrid (O_spawn\<lparr>y := k + 1\<rparr>) = Inr False \<and>
             (piece s = Some (O_spawn\<lparr>y := k\<rparr>) \<longrightarrow>
                handleKeyDown ''ArrowDown'' rnd s = Some (Inr (s\<lparr>piece := Some (O_spawn\<lparr>y := k + 1\<rparr>)\<rparr>))) \<and>
             (piece_solo t = O_spawn\<lparr>y := k\<rparr> \<longrightarrow>
                onKey_solo ''ArrowDown'' r1 r2 t = Some (Inr (t\<lparr>piece_solo := O_spawn\<lparr>y := k + 1\<rparr>\<rparr>)))"
    if "0 \<le> k \<and> k < 18" for k
  proof -
    have free: "collides emptyGrid (O_spawn\<lparr>y := k + 1\<rparr>) = Inr False"
        "collides_solo emptyGrid (O_spawn\<lparr>y := k + 1\<rparr>) = Inr False"
      using that by (simp_all add: collides_O_empty)
    have "handleKeyDown ''ArrowDown'' rnd s = Some (Inr (s\<lparr>piece := Some (O_spawn\<lparr>y := k + 1\<rparr>)\<rparr>))"
      if "piece s = Some (O_spawn\<lparr>y := k\<rparr>)"
      using that assms(1-4) free by (simp add: handleKeyDown_def)
    moreover have "onKey_solo ''ArrowDown'' r1 r2 t = Some (Inr (t\<lparr>piece_solo := O_spawn\<lparr>y := k + 1\<rparr>\<rparr>))"
      if "piece_solo t = O_spawn\<lparr>y := k\<rparr>"
      using that assms(5-7) free
      by (simp add: onKey_solo_def onKey_piece_def onKey_proposal_def)
    ultimately show ?thesis
      using free by blast
  qed
  have floor: "collides emptyGrid (O_spawn\<lparr>y := 19\<rparr>) = Inr True"
      "collides_solo emptyGrid (O_spawn\<lparr>y := 19\<rparr>) = Inr True"
    by (simp_all add: collides_O_empty)
  have lock: "handleKeyDown ''ArrowDown'' rnd s = Some (lockPiece rnd s)"
    if "piece s = Some (O_spawn\<lparr>y := 18\<rparr>)"
    using that assms(1-4) floor by (simp add: handleKeyDown_def)
  from spawn start move floor lock merge_O_floor show ?thesis
    by blast
qed

lemma running_O_fields:
  "started running_O" "\<not> over running_O" "\<not> paused running_O" "grid running_O = emptyGrid"
  "piece running_O = Some O_spawn"
  by (simp_all add: running_O_def)

lemma running_O_solo_fields:
  "started_solo running_O_solo" "\<not> over_solo running_O_solo"
  "grid_solo running_O_solo = emptyGrid" "piece_solo running_O_solo = O_spawn"
  by (simp_all add: running_O_solo_def)

theorem O_piece_reaches_floor_witness:
  "started running_O \<and> \<not> over running_O \<and> \<not> paused running_O \<and> grid running_O = emptyGrid \<and>
   started_solo running_O_solo \<and> \<not> over_solo running_O_solo \<and>
   grid_solo running_O_solo = emptyGrid \<and>
   handleKeyDown ''ArrowDown'' (\<lambda>_. 0) running_O =
     Some (Inr (running_O\<lparr>piece := Some (O_spawn\<lparr>y := 1\<rparr>)\<rparr>)) \<and>
   onKey_solo ''ArrowDown'' 0 0 running_O_solo =
     Some (Inr (running_O_solo\<lparr>piece_solo := O_spawn\<lparr>y := 1\<rparr>\<rparr>)) \<and>
   collides emptyGrid (O_spawn\<lparr>y := 18\<rparr>) = Inr False \<and>
   collides emptyGrid (O_spawn\<lparr>y := 19\<rparr>) = Inr True"
proof -
  note inst = O_piece_reaches_floor
      [OF running_O_fields(1,2,3,4) running_O_solo_fields(1,2,3), of "\<lambda>_. 0" 0 0]
  have p: "piece running_O = Some (O_spawn\<lparr>y := 0\<rparr>)" "piece_solo running_O_solo = O_spawn\<lparr>y := 0\<rparr>"
    by (simp_all add: running_O_fields running_O_solo_fields y_O_spawn)
  from inst have step: "0 \<le> k \<and> k < 18 \<Longrightarrow>
             collides emptyGrid (O_spawn\<lparr>y := k + 1\<rparr>) = Inr False \<and>
             (piece running_O = Some (O_spawn\<lparr>y := k\<rparr>) \<longrightarrow>
                handleKeyDown ''ArrowDown'' (\<lambda>_. 0) running_O =
                  Some (Inr (running_O\<lparr>piece := Some (O_spawn\<lparr>y := k + 1\<rparr>)\<rparr>))) \<and>
             (piece_solo running_O_solo = O_spawn\<lparr>y := k\<rparr> \<longrightarrow>
                onKey_solo ''ArrowDown'' 0 0 running_O_solo =
                  Some (Inr (running_O_solo\<lparr>piece_solo := O_spawn\<lparr>y := k + 1\<rparr>\<rparr>)))" for k
    by blast
  from inst have fl: "collides emptyGrid (O_spawn\<lparr>y := 19\<rparr>) = Inr True"
    by blast
  show ?thesis
    using step [of 0] step [of 17] p fl
    by (simp add: running_O_fields running_O_solo_fields)
qed

text \<open>
  C6 as stated fails in its count: after 18 moves the O piece is at \<open>y = 18\<close>, on the floor,
  where it does not collide; the 19th move would take it to \<open>y = 19\<close>, which collides, so the
  19th attempt does not succeed.
\<close>

theorem nineteenth_move_is_blocked:
  "collides_solo emptyGrid (O_spawn\<lparr>y := 18\<rparr>) = Inr False \<and>
   collides_solo emptyGrid (O_spawn\<lparr>y := 18 + 1\<rparr>) = Inr True \<and>
   collides emptyGrid (O_spawn\<lparr>y := 18 + 1\<rparr>) = Inr True"
  by (simp add: collides_O_empty)

end
